theory Spec2Isabelle
  imports Main "HOL-Library.Char_ord" "HOL-Library.List_Lexorder"
begin

section \<open>Data model (src/app/db.go)\<close>

text \<open>
  Go strings and byte slices are sequences of bytes; \<^typ>\<open>string\<close> is a list of 8-bit
  characters, ordered bytewise and lexicographically (a proper prefix is smaller), which is
  the order of Go's \<^verbatim>\<open>bytes.Compare\<close>. A nil byte slice and an empty one are both
  \<^term>\<open>[] :: string\<close>: the code converts them with \<^verbatim>\<open>string(...)\<close> or stores them, and
  never tells them apart.
\<close>

record Item =
  Name :: string
  Type :: string
  Content :: string

record Category =
  CategoryName :: string
  Items :: "Item list"

text \<open>Go's \<^verbatim>\<open>int\<close> is 64 bits wide on the platforms the program is built for: the
  result of an addition or subtraction is reduced to the two's complement range.\<close>

definition int64 :: "int \<Rightarrow> int" where
  "int64 x = (x + 2 ^ 63) mod 2 ^ 64 - 2 ^ 63"

subsection \<open>strconv.Itoa and strconv.Atoi\<close>

function nat_digits :: "nat \<Rightarrow> string" where
  "nat_digits n =
     (if n < 10 then [char_of (48 + n)]
      else nat_digits (n div 10) @ [char_of (48 + n mod 10)])"
  by pat_completeness auto
termination
  by (relation "measure id") auto

declare nat_digits.simps [simp del]

definition Itoa :: "int \<Rightarrow> string" where
  "Itoa i = (if i < 0 then CHR ''-'' # nat_digits (nat (- i)) else nat_digits (nat i))"

definition is_digit :: "char \<Rightarrow> bool" where
  "is_digit c = (CHR ''0'' \<le> c \<and> c \<le> CHR ''9'')"

definition digits_value :: "string \<Rightarrow> int" where
  "digits_value ds = foldl (\<lambda>n c. n * 10 + (of_char c - 48)) 0 ds"

text \<open>\<^verbatim>\<open>strconv.Atoi\<close>: one optional sign, then at least one decimal digit and nothing
  else; a value outside the 64-bit range is an error too. \<open>None\<close> is the non-nil error.\<close>

definition Atoi :: "string \<Rightarrow> int option" where
  "Atoi s =
     (let neg = (s \<noteq> [] \<and> hd s = CHR ''-'');
          ds = (if s \<noteq> [] \<and> (hd s = CHR ''-'' \<or> hd s = CHR ''+'') then tl s else s)
      in if ds = [] \<or> \<not> list_all is_digit ds then None
         else
           let v = (if neg then - digits_value ds else digits_value ds)
           in if v < - (2 ^ 63) \<or> 2 ^ 63 \<le> v then None else Some v)"

section \<open>The storage engine's buckets\<close>

text \<open>
  Modelled from the spec: the key-value engine (go.etcd.io/bbolt) is a library outside the
  repository; section 4.1 of the specification gives its contract: a bucket maps keys to
  byte values or nested buckets, and cursor iteration over a bucket yields the keys in
  lexicographic byte order. A bucket is therefore an association list kept in strictly
  ascending key order, and a cursor walks the list from its head. The error cases of the
  calls are those the library documents.
\<close>

datatype node = Val string | Bkt "(string \<times> node) list"

type_synonym bucket = "(string \<times> node) list"

datatype error =
    ErrBucketNameRequired
  | ErrKeyRequired
  | ErrKeyTooLarge
  | ErrValueTooLarge
  | ErrIncompatibleValue
  | ErrCommit
  | FailedAllCategories
  | FailedRecord string
  | NoDataDownloaded
  | UnknownCategory string

fun bkt_put :: "string \<Rightarrow> node \<Rightarrow> bucket \<Rightarrow> bucket" where
  "bkt_put k v [] = [(k, v)]"
| "bkt_put k v ((k', v') # rest) =
     (if k = k' then (k, v) # rest
      else if k < k' then (k, v) # (k', v') # rest
      else (k', v') # bkt_put k v rest)"

fun bkt_del :: "string \<Rightarrow> bucket \<Rightarrow> bucket" where
  "bkt_del k [] = []"
| "bkt_del k ((k', v') # rest) = (if k = k' then rest else (k', v') # bkt_del k rest)"

text \<open>Well-formed buckets: keys strictly ascending, at every level of nesting.\<close>

fun wf_node :: "node \<Rightarrow> bool" where
  "wf_node (Val v) = True"
| "wf_node (Bkt b) = (sorted_wrt (<) (map fst b) \<and> (\<forall>n \<in> set (map snd b). wf_node n))"

definition wf_bucket :: "bucket \<Rightarrow> bool" where
  "wf_bucket b = wf_node (Bkt b)"

text \<open>\<^verbatim>\<open>Bucket(name)\<close>: the nested bucket, nil when the key is absent or holds a value.\<close>

definition bolt_Bucket :: "string \<Rightarrow> bucket \<Rightarrow> bucket option" where
  "bolt_Bucket name b = (case map_of b name of Some (Bkt sub) \<Rightarrow> Some sub | _ \<Rightarrow> None)"

text \<open>\<^verbatim>\<open>Get(key)\<close>: the value, nil when the key is absent or holds a nested bucket.\<close>

definition bolt_Get :: "string \<Rightarrow> bucket \<Rightarrow> string" where
  "bolt_Get key b = (case map_of b key of Some (Val v) \<Rightarrow> v | _ \<Rightarrow> [])"

text \<open>\<^verbatim>\<open>CreateBucketIfNotExists(name)\<close> on bucket \<open>b\<close>: the bucket \<open>b\<close> afterwards and the
  nested bucket it opened. A write through the nested bucket's handle is a write into
  \<open>b\<close>; the model stores the changed nested bucket back with \<^const>\<open>bkt_put\<close>.\<close>

definition bolt_CreateBucketIfNotExists :: "string \<Rightarrow> bucket \<Rightarrow> error + bucket \<times> bucket" where
  "bolt_CreateBucketIfNotExists name b =
     (if name = [] then Inl ErrBucketNameRequired
      else case map_of b name of
             None \<Rightarrow> Inr (bkt_put name (Bkt []) b, [])
           | Some (Bkt sub) \<Rightarrow> Inr (b, sub)
           | Some (Val v) \<Rightarrow> Inl ErrIncompatibleValue)"

definition bolt_Put :: "string \<Rightarrow> string \<Rightarrow> bucket \<Rightarrow> error + bucket" where
  "bolt_Put key val b =
     (if key = [] then Inl ErrKeyRequired
      else if length key > 32768 then Inl ErrKeyTooLarge
      else if length val > 2147483646 then Inl ErrValueTooLarge
      else case map_of b key of
             Some (Bkt sub) \<Rightarrow> Inl ErrIncompatibleValue
           | _ \<Rightarrow> Inr (bkt_put key (Val val) b))"

text \<open>\<^verbatim>\<open>Delete(key)\<close>: deleting an absent key is not an error.\<close>

definition bolt_Delete :: "string \<Rightarrow> bucket \<Rightarrow> error + bucket" where
  "bolt_Delete key b =
     (case map_of b key of
        None \<Rightarrow> Inr b
      | Some (Bkt sub) \<Rightarrow> Inl ErrIncompatibleValue
      | Some (Val v) \<Rightarrow> Inr (bkt_del key b))"

text \<open>\<^verbatim>\<open>db.Update(fn)\<close>: one read-write transaction on the root bucket. An error of
  \<open>fn\<close> rolls the transaction back; so does a failing commit (an I/O failure, which the
  environment decides: \<open>commit_ok\<close>). The result is the error and the database afterwards.\<close>

definition db_Update :: "bool \<Rightarrow> (bucket \<Rightarrow> error + bucket) \<Rightarrow> bucket \<Rightarrow> error option \<times> bucket" where
  "db_Update commit_ok fn d =
     (case fn d of
        Inl e \<Rightarrow> (Some e, d)
      | Inr d' \<Rightarrow> if commit_ok then (None, d') else (Some ErrCommit, d))"

section \<open>The repository's storage functions (src/app/db.go)\<close>

definition categoriesBkt :: string where "categoriesBkt = ''categories''"
definition lastRunBktKey :: string where "lastRunBktKey = ''last_run''"
definition itemContentKey :: string where "itemContentKey = ''content''"
definition itemTypeKey :: string where "itemTypeKey = ''type''"

text \<open>The progress records: the content of the \<open>last_run\<close> bucket, empty when the
  bucket does not exist yet.\<close>

definition lastRunBucket :: "bucket \<Rightarrow> bucket" where
  "lastRunBucket d = (case bolt_Bucket lastRunBktKey d of None \<Rightarrow> [] | Some b \<Rightarrow> b)"

text \<open>The databases the program makes: the root of a database holds buckets only (a
  transaction has no \<^verbatim>\<open>Put\<close>), and the \<open>last_run\<close> bucket holds values only
  (\<^verbatim>\<open>saveLastRun\<close> is its only writer).\<close>

fun is_bucket :: "node \<Rightarrow> bool" where
  "is_bucket (Bkt sub) = True"
| "is_bucket (Val v) = False"

definition wf_db :: "bucket \<Rightarrow> bool" where
  "wf_db d =
     (wf_bucket d \<and> list_all is_bucket (map snd d) \<and>
      (case bolt_Bucket lastRunBktKey d of
         None \<Rightarrow> True
       | Some lastRunBkt \<Rightarrow> list_all (\<lambda>n. \<not> is_bucket n) (map snd lastRunBkt)))"

text \<open>The loop over \<^verbatim>\<open>category.Items\<close> in \<^verbatim>\<open>downloadFromAPI\<close>, on the category's bucket.\<close>

fun putItems :: "Item list \<Rightarrow> bucket \<Rightarrow> error + bucket" where
  "putItems [] catBucket = Inr catBucket"
| "putItems (item # rest) catBucket =
     (case bolt_CreateBucketIfNotExists (Name item) catBucket of
        Inl e \<Rightarrow> Inl (FailedRecord (Name item))
      | Inr (catBucket1, itemBucket) \<Rightarrow>
          (case bolt_Put itemTypeKey (Type item) itemBucket of
             Inl e \<Rightarrow> Inl e
           | Inr itemBucket1 \<Rightarrow>
               (case bolt_Put itemContentKey (Content item) itemBucket1 of
                  Inl e \<Rightarrow> Inl e
                | Inr itemBucket2 \<Rightarrow>
                    putItems rest (bkt_put (Name item) (Bkt itemBucket2) catBucket1))))"

text \<open>The loop over the fetched categories, the body of the transaction.\<close>

fun putCategories :: "Category list \<Rightarrow> bucket \<Rightarrow> error + bucket" where
  "putCategories [] tx = Inr tx"
| "putCategories (category # rest) tx =
     (case bolt_CreateBucketIfNotExists categoriesBkt tx of
        Inl e \<Rightarrow> Inl FailedAllCategories
      | Inr (tx1, catsBucket) \<Rightarrow>
          (case bolt_CreateBucketIfNotExists (CategoryName category) catsBucket of
             Inl e \<Rightarrow> Inl (FailedRecord (CategoryName category))
           | Inr (catsBucket1, catBucket) \<Rightarrow>
               (case putItems (Items category) catBucket of
                  Inl e \<Rightarrow> Inl e
                | Inr catBucket1 \<Rightarrow>
                    putCategories rest
                      (bkt_put categoriesBkt
                         (Bkt (bkt_put (CategoryName category) (Bkt catBucket1) catsBucket1)) tx1))))"

text \<open>\<^verbatim>\<open>downloadFromAPI\<close> after the HTTP request and the JSON decoding, which are the
  environment's: \<open>catItems\<close> is the decoded feed. The result is the error and the database.\<close>

definition downloadFromAPI :: "bool \<Rightarrow> Category list \<Rightarrow> bucket \<Rightarrow> error option \<times> bucket" where
  "downloadFromAPI commit_ok catItems d = db_Update commit_ok (putCategories catItems) d"

text \<open>The cursor loop of \<^verbatim>\<open>categoryItems\<close>: a key that is not a nested bucket is skipped.\<close>

fun collectItems :: "bucket \<Rightarrow> Item list" where
  "collectItems [] = []"
| "collectItems ((itemB, Val v) # rest) = collectItems rest"
| "collectItems ((itemB, Bkt itemBkt) # rest) =
     \<lparr>Name = itemB, Type = bolt_Get itemTypeKey itemBkt, Content = bolt_Get itemContentKey itemBkt\<rparr>
       # collectItems rest"

definition categoryItems :: "string \<Rightarrow> bucket \<Rightarrow> error + Item list" where
  "categoryItems category d =
     (case bolt_Bucket categoriesBkt d of
        None \<Rightarrow> Inl NoDataDownloaded
      | Some catsBucket \<Rightarrow>
          (case bolt_Bucket category catsBucket of
             None \<Rightarrow> Inl (UnknownCategory category)
           | Some categoryBkt \<Rightarrow> Inr (collectItems categoryBkt)))"

text \<open>The bucket of a category that \<^verbatim>\<open>categoryItems\<close> walks, empty when the category or
  the \<open>categories\<close> bucket does not exist.\<close>

definition categoryBucket :: "string \<Rightarrow> bucket \<Rightarrow> bucket" where
  "categoryBucket category d =
     (case bolt_Bucket categoriesBkt d of
        None \<Rightarrow> []
      | Some catsBucket \<Rightarrow>
          (case bolt_Bucket category catsBucket of None \<Rightarrow> [] | Some b \<Rightarrow> b))"

definition saveLastRun :: "bool \<Rightarrow> string \<Rightarrow> int \<Rightarrow> bucket \<Rightarrow> error option \<times> bucket" where
  "saveLastRun commit_ok category index d =
     db_Update commit_ok
       (\<lambda>tx. case bolt_CreateBucketIfNotExists lastRunBktKey tx of
               Inl e \<Rightarrow> Inl e
             | Inr (tx1, lastRunBkt) \<Rightarrow>
                 (case bolt_Put category (Itoa index) lastRunBkt of
                    Inl e \<Rightarrow> Inl e
                  | Inr lastRunBkt1 \<Rightarrow> Inr (bkt_put lastRunBktKey (Bkt lastRunBkt1) tx1))) d"

definition deleteLastRun :: "bool \<Rightarrow> string \<Rightarrow> bucket \<Rightarrow> error option \<times> bucket" where
  "deleteLastRun commit_ok category d =
     db_Update commit_ok
       (\<lambda>tx. case bolt_CreateBucketIfNotExists lastRunBktKey tx of
               Inl e \<Rightarrow> Inl e
             | Inr (tx1, lastRunBkt) \<Rightarrow>
                 (case bolt_Delete category lastRunBkt of
                    Inl e \<Rightarrow> Inl e
                  | Inr lastRunBkt1 \<Rightarrow> Inr (bkt_put lastRunBktKey (Bkt lastRunBkt1) tx1))) d"

text \<open>The value a cursor yields with a key: nil for a nested bucket.\<close>

fun cursor_value :: "node \<Rightarrow> string" where
  "cursor_value (Val v) = v"
| "cursor_value (Bkt sub) = []"

text \<open>The cursor loop of \<^verbatim>\<open>lastRuns\<close>:
  \<^verbatim>\<open>for catB, indexB := records.First(); catB != nil; catB, _ = records.Next()\<close>.
  The post statement assigns the next key to \<^verbatim>\<open>catB\<close> and discards the next value, so
  \<^verbatim>\<open>indexB\<close> is the first record's value in every iteration: it is a parameter of the
  loop, which runs over the keys.\<close>

fun lastRuns_loop :: "string \<Rightarrow> string list \<Rightarrow> (string \<rightharpoonup> int) \<Rightarrow> (string \<rightharpoonup> int)" where
  "lastRuns_loop indexB [] lastRuns = lastRuns"
| "lastRuns_loop indexB (catB # rest) lastRuns =
     (case Atoi indexB of
        None \<Rightarrow> lastRuns_loop indexB rest lastRuns
      | Some index \<Rightarrow> lastRuns_loop indexB rest (lastRuns(catB \<mapsto> index)))"

text \<open>\<^verbatim>\<open>lastRuns\<close>: the map and the error of the read transaction.\<close>

definition lastRuns :: "bucket \<Rightarrow> (string \<rightharpoonup> int) \<times> error option" where
  "lastRuns d =
     (case bolt_Bucket lastRunBktKey d of
        None \<Rightarrow> (Map.empty, None)
      | Some lastRunBkt \<Rightarrow>
          (case lastRunBkt of
             [] \<Rightarrow> (Map.empty, None)
           | (catB, n) # rest \<Rightarrow>
               (lastRuns_loop (cursor_value n) (map fst lastRunBkt) Map.empty, None)))"

section \<open>The scheduler (src/app/app.go)\<close>

text \<open>
  What the scheduler does to the outside is recorded in a trace: each call of
  \<^verbatim>\<open>saveLastRun\<close> and \<^verbatim>\<open>deleteLastRun\<close> with the error it returned, and each reminder
  window shown, with the item and whether its content could be rendered (decoding an image
  and parsing a link are the environment's; the window is shown either way, with an error
  label when rendering failed).
\<close>

datatype event =
    SaveLastRun string int "error option"
  | DeleteLastRun string "error option"
  | ShowWindow string Item bool

text \<open>
  The program's state: the database file, the two global maps, the categories whose
  goroutine is inside its ticker loop (where the deferred clean-up is registered), and the
  trace. Every goroutine runs its steps one at a time, interleaved with the handlers of
  the user interface, so a step is a function on this state.
\<close>

record state =
  db :: bucket
  activeReminders :: "string \<rightharpoonup> Item list"
  lastRunStatuses :: "string \<rightharpoonup> int"
  tickers :: "string set"
  trace :: "event list"

text \<open>What the environment decides during a step: whether the commit of
  \<^verbatim>\<open>saveLastRun\<close> succeeds, whether the item's content renders, whether the commit of
  \<^verbatim>\<open>deleteLastRun\<close> succeeds.\<close>

record env =
  save_ok :: bool
  render_ok :: bool
  delete_ok :: bool

text \<open>The cursor both \<^verbatim>\<open>startTimer\<close> and \<^verbatim>\<open>showReminder\<close> read:
  \<^verbatim>\<open>lastIndex, exist := lastRunStatuses[category]; if !exist { lastIndex = -1 }\<close>.\<close>

definition lastIndexOf :: "state \<Rightarrow> string \<Rightarrow> int" where
  "lastIndexOf s category = (case lastRunStatuses s category of None \<Rightarrow> - 1 | Some i \<Rightarrow> i)"

text \<open>\<^verbatim>\<open>showReminder\<close>: \<open>None\<close> is the runtime panic of \<^verbatim>\<open>items[nextIndex]\<close> at a negative
  index, which ends the process; otherwise the returned flag and the state.\<close>

definition showReminder :: "env \<Rightarrow> string \<Rightarrow> state \<Rightarrow> (bool \<times> state) option" where
  "showReminder e category s =
     (case activeReminders s category of
        None \<Rightarrow> Some (False, s)
      | Some items \<Rightarrow>
          if length items = 0 then Some (False, s)
          else
            let lastIndex = lastIndexOf s category;
                nextIndex = int64 (lastIndex + 1)
            in if nextIndex \<ge> int (length items) then Some (False, s)
               else
                 let s1 = s\<lparr>lastRunStatuses := (lastRunStatuses s)(category \<mapsto> nextIndex)\<rparr>;
                     saved = saveLastRun (save_ok e) category nextIndex (db s1);
                     s2 = s1\<lparr>db := snd saved,
                             trace := trace s1 @ [SaveLastRun category nextIndex (fst saved)]\<rparr>
                 in if nextIndex < 0 then None
                    else
                      let nextItem = items ! nat nextIndex;
                          s3 = s2\<lparr>trace := trace s2 @ [ShowWindow category nextItem (render_ok e)]\<rparr>;
                          remaining = int64 (int64 (int (length items) - nextIndex) - 1)
                      in Some (remaining > 0, s3))"

text \<open>The closure \<^verbatim>\<open>killReminder\<close> of \<^verbatim>\<open>startTimer\<close>.\<close>

definition killReminder :: "env \<Rightarrow> string \<Rightarrow> state \<Rightarrow> state" where
  "killReminder e category s =
     (let deleted = deleteLastRun (delete_ok e) category (db s)
      in s\<lparr>activeReminders := (activeReminders s)(category := None),
            lastRunStatuses := (lastRunStatuses s)(category := None),
            db := snd deleted,
            trace := trace s @ [DeleteLastRun category (fst deleted)]\<rparr>)"

text \<open>\<^verbatim>\<open>startTimer\<close> together with the start of its goroutine, up to the point where the
  goroutine either has returned or waits in its ticker loop. \<open>None\<close> is a panic.\<close>

definition startTimer :: "env \<Rightarrow> bool \<Rightarrow> string \<Rightarrow> state \<Rightarrow> state option" where
  "startTimer e immediateDisplay category s =
     (case activeReminders s category of
        None \<Rightarrow> Some s
      | Some items \<Rightarrow>
          if length items = 0 then Some s
          else
            let lastIndex = lastIndexOf s category;
                remaining = int64 (int64 (int (length items) - lastIndex) - 1)
            in if remaining = 0 then Some s
               else if immediateDisplay then
                 (case showReminder e category s of
                    None \<Rightarrow> None
                  | Some (again, s') \<Rightarrow>
                      if \<not> again then Some s'
                      else Some (s'\<lparr>tickers := insert category (tickers s')\<rparr>))
               else Some (s\<lparr>tickers := insert category (tickers s)\<rparr>))"

text \<open>One firing of a category's ticker (\<^verbatim>\<open>case <-ticker.C\<close>): when \<^verbatim>\<open>showReminder\<close>
  returns false the goroutine returns, and its deferred function stops the ticker and calls
  \<^verbatim>\<open>killReminder\<close>.\<close>

definition tick :: "env \<Rightarrow> string \<Rightarrow> state \<Rightarrow> state option" where
  "tick e category s =
     (if category \<notin> tickers s then Some s
      else case showReminder e category s of
             None \<Rightarrow> None
           | Some (again, s') \<Rightarrow>
               if again then Some s'
               else Some (killReminder e category (s'\<lparr>tickers := tickers s' - {category}\<rparr>)))"

text \<open>The X button of a reminder cancels the goroutine's context. A goroutine in its
  ticker loop returns (\<^verbatim>\<open>case <-ctx.Done()\<close>) and runs the deferred clean-up; when the
  goroutine has returned already, nothing receives the cancellation.\<close>

definition cancel :: "env \<Rightarrow> string \<Rightarrow> state \<Rightarrow> state" where
  "cancel e category s =
     (if category \<in> tickers s
      then killReminder e category (s\<lparr>tickers := tickers s - {category}\<rparr>)
      else s)"

text \<open>The handler of the Start button: the selected category (if any) and the
  \<open>No initial delay\<close> check box are its inputs; the result is the text of the
  error label, if one is shown, and the state.\<close>

datatype message =
    PleaseSelect
  | AlreadyRunning string
  | Failed error

definition startButton ::
    "env \<Rightarrow> bool \<Rightarrow> string option \<Rightarrow> state \<Rightarrow> (message option \<times> state) option" where
  "startButton e noDelay selected s =
     (case selected of
        None \<Rightarrow> Some (Some PleaseSelect, s)
      | Some selectedCategory \<Rightarrow>
          if activeReminders s selectedCategory \<noteq> None
          then Some (Some (AlreadyRunning selectedCategory), s)
          else case categoryItems selectedCategory (db s) of
                 Inl err \<Rightarrow> Some (Some (Failed err), s)
               | Inr items \<Rightarrow>
                   (case startTimer e noDelay selectedCategory
                           (s\<lparr>activeReminders := (activeReminders s)(selectedCategory \<mapsto> items)\<rparr>) of
                      None \<Rightarrow> None
                    | Some s' \<Rightarrow> Some (None, s')))"

text \<open>The loop of \<^verbatim>\<open>main\<close> that resumes the categories of \<^verbatim>\<open>lastRunStatuses\<close>. Go does
  not fix the order in which \<^verbatim>\<open>range\<close> visits a map's keys, so the order is a parameter.\<close>

fun resumeLoop :: "env \<Rightarrow> string list \<Rightarrow> state \<Rightarrow> state option" where
  "resumeLoop e [] s = Some s"
| "resumeLoop e (category # rest) s =
     (case categoryItems category (db s) of
        Inl err \<Rightarrow> resumeLoop e rest (s\<lparr>lastRunStatuses := (lastRunStatuses s)(category := None)\<rparr>)
      | Inr items \<Rightarrow>
          (case startTimer e False category
                  (s\<lparr>activeReminders := (activeReminders s)(category \<mapsto> items)\<rparr>) of
             None \<Rightarrow> None
           | Some s' \<Rightarrow> resumeLoop e rest s'))"

text \<open>The state of a process that has just opened the database \<open>d\<close>, and the part of
  \<^verbatim>\<open>main\<close> that loads the persisted progress and resumes; \<open>order\<close> lists the keys of the
  loaded map in the order the loop visits them.\<close>

definition freshState :: "bucket \<Rightarrow> state" where
  "freshState d =
     \<lparr>db = d, activeReminders = Map.empty, lastRunStatuses = Map.empty, tickers = {}, trace = []\<rparr>"

definition resume :: "env \<Rightarrow> string list \<Rightarrow> bucket \<Rightarrow> state option" where
  "resume e order d =
     (let loaded = lastRuns d;
          s = (freshState d)\<lparr>lastRunStatuses := (if snd loaded = None then fst loaded else Map.empty)\<rparr>
      in resumeLoop e order s)"

text \<open>A sequence of ticker firings of one category, each with what the environment decides.\<close>

fun ticks :: "env list \<Rightarrow> string \<Rightarrow> state \<Rightarrow> state option" where
  "ticks [] category s = Some s"
| "ticks (e # es) category s =
     (case tick e category s of None \<Rightarrow> None | Some s' \<Rightarrow> ticks es category s')"

text \<open>What a trace says about one category: the items shown, in order, and the indices
  handed to \<^verbatim>\<open>saveLastRun\<close>, in order.\<close>

fun shown :: "string \<Rightarrow> event list \<Rightarrow> Item list" where
  "shown category [] = []"
| "shown category (ShowWindow c item ok # evs) =
     (if c = category then item # shown category evs else shown category evs)"
| "shown category (ev # evs) = shown category evs"

fun saved :: "string \<Rightarrow> event list \<Rightarrow> int list" where
  "saved category [] = []"
| "saved category (SaveLastRun c index err # evs) =
     (if c = category then index # saved category evs else saved category evs)"
| "saved category (ev # evs) = saved category evs"

section \<open>Example inputs\<close>

definition example_item :: "string \<Rightarrow> Item" where
  "example_item name = \<lparr>Name = name, Type = ''text'', Content = ''hello''\<rparr>"

definition item_node :: node where
  "item_node = Bkt [(''content'', Val ''hello''), (''type'', Val ''text'')]"

definition all_ok :: env where
  "all_ok = \<lparr>save_ok = True, render_ok = True, delete_ok = True\<rparr>"

definition all_failing :: env where
  "all_failing = \<lparr>save_ok = False, render_ok = False, delete_ok = False\<rparr>"

text \<open>A database as the program leaves it when its window is closed while category \<open>a\<close>
  (two items) has shown its first item and category \<open>b\<close> (four items) its third.\<close>

definition resume_db :: bucket where
  "resume_db =
     [(''categories'',
        Bkt [(''a'', Bkt [(''a0'', item_node), (''a1'', item_node)]),
             (''b'', Bkt [(''b0'', item_node), (''b1'', item_node), (''b2'', item_node),
                          (''b3'', item_node)])]),
      (''last_run'', Bkt [(''a'', Val ''0''), (''b'', Val ''2'')])]"

text \<open>Progress records of which one does not parse.\<close>

definition malformed_first_db :: bucket where
  "malformed_first_db = [(''last_run'', Bkt [(''a'', Val ''x''), (''b'', Val ''3'')])]"

definition malformed_second_db :: bucket where
  "malformed_second_db = [(''last_run'', Bkt [(''a'', Val ''7''), (''b'', Val ''x'')])]"

text \<open>Category \<open>quotes\<close> with three items, started without an immediate display.\<close>

definition quotes_db :: bucket where
  "quotes_db =
     [(''categories'',
        Bkt [(''quotes'', Bkt [(''q0'', item_node), (''q1'', item_node), (''q2'', item_node)])])]"

definition quotes_items :: "Item list" where
  "quotes_items = [example_item ''q0'', example_item ''q1'', example_item ''q2'']"

definition quotes_state :: state where
  "quotes_state =
     \<lparr>db = quotes_db, activeReminders = [''quotes'' \<mapsto> quotes_items],
      lastRunStatuses = Map.empty, tickers = {''quotes''}, trace = []\<rparr>"

text \<open>A database as the program leaves it when its window is closed while category \<open>a\<close>
  (four items) has shown its third item and category \<open>c\<close> (two items) its first, and the
  state of the next process after it has loaded the progress and resumed both.\<close>

definition overrun_db :: bucket where
  "overrun_db =
     [(''categories'',
        Bkt [(''a'', Bkt [(''a0'', item_node), (''a1'', item_node), (''a2'', item_node),
                          (''a3'', item_node)]),
             (''c'', Bkt [(''c0'', item_node), (''c1'', item_node)])]),
      (''last_run'', Bkt [(''a'', Val ''2''), (''c'', Val ''0'')])]"

definition overrun_state :: state where
  "overrun_state =
     \<lparr>db = overrun_db,
      activeReminders =
        [''a'' \<mapsto> [example_item ''a0'', example_item ''a1'', example_item ''a2'',
                   example_item ''a3''],
         ''c'' \<mapsto> [example_item ''c0'', example_item ''c1'']],
      lastRunStatuses = [''a'' \<mapsto> 2, ''c'' \<mapsto> 2],
      tickers = {''a'', ''c''}, trace = []\<rparr>"

text \<open>The state of \<^const>\<open>quotes_state\<close> after its first tick.\<close>

definition quotes_shown :: state where
  "quotes_shown =
     \<lparr>db = [(''categories'',
              Bkt [(''quotes'', Bkt [(''q0'', item_node), (''q1'', item_node), (''q2'', item_node)])]),
            (''last_run'', Bkt [(''quotes'', Val ''0'')])],
      activeReminders = [''quotes'' \<mapsto> quotes_items],
      lastRunStatuses = [''quotes'' \<mapsto> 0], tickers = {''quotes''},
      trace = [SaveLastRun ''quotes'' 0 None, ShowWindow ''quotes'' (example_item ''q0'') True]\<rparr>"

text \<open>A category that was ingested with no items, and one with a single item.\<close>

definition empty_db :: bucket where
  "empty_db = [(''categories'', Bkt [(''empty'', Bkt [])])]"

definition solo_db :: bucket where
  "solo_db = [(''categories'', Bkt [(''solo'', Bkt [(''s0'', item_node)])])]"

text \<open>A feed with one category, its items named \<open>zeta\<close>, \<open>alpha\<close>, \<open>mango\<close> in this
  order, and the database after its ingestion into an empty one.\<close>

definition news_feed :: "Category list" where
  "news_feed =
     [\<lparr>CategoryName = ''news'',
       Items = [example_item ''zeta'', example_item ''alpha'', example_item ''mango'']\<rparr>]"

definition news_db :: bucket where
  "news_db =
     [(''categories'',
        Bkt [(''news'', Bkt [(''alpha'', item_node), (''mango'', item_node), (''zeta'', item_node)])])]"

section \<open>Evaluation and basic facts\<close>

lemmas bolt_defs =
  bolt_Bucket_def bolt_Get_def bolt_CreateBucketIfNotExists_def bolt_Put_def bolt_Delete_def
  db_Update_def

lemmas key_defs = categoriesBkt_def lastRunBktKey_def itemContentKey_def itemTypeKey_def

lemmas atoi_defs = Atoi_def is_digit_def digits_value_def

lemmas example_defs = example_item_def item_node_def all_ok_def all_failing_def

lemma lastRuns_loop_eq:
  "lastRuns_loop indexB cats m =
     (case Atoi indexB of
        None \<Rightarrow> m
      | Some index \<Rightarrow> (\<lambda>c. if c \<in> set cats then Some index else m c))"
  by (induction cats arbitrary: m) (auto split: option.splits)

lemma Itoa_small: "Itoa 0 = ''0''" "Itoa 1 = ''1''" "Itoa 2 = ''2''" "Itoa 3 = ''3''"
  by code_simp+

lemma lastRuns_no_error: "snd (lastRuns d) = None"
  by (simp add: lastRuns_def split: option.splits list.splits)

subsection \<open>Buckets\<close>

lemma map_of_bkt_put: "map_of (bkt_put k v b) = (map_of b)(k \<mapsto> v)"
  by (induction b) (auto simp: fun_eq_iff)

lemma set_bkt_put_keys: "fst ` set (bkt_put k v b) = insert k (fst ` set b)"
  by (simp add: dom_map_of_conv_image_fst [symmetric] map_of_bkt_put)

lemma set_bkt_put_subset: "set (bkt_put k v b) \<subseteq> insert (k, v) (set b)"
  by (induction b) (auto split: if_splits)

lemma sorted_bkt_put:
  "sorted_wrt (<) (map fst b) \<Longrightarrow> sorted_wrt (<) (map fst (bkt_put k v b))"
proof (induction b)
  case Nil
  then show ?case by simp
next
  case (Cons p b)
  obtain k' v' where p: "p = (k', v')" by (cases p)
  have "\<forall>x \<in> fst ` set (bkt_put k v b). k' < x" if "k' < k"
    using Cons.prems that by (auto simp: p set_bkt_put_keys)
  with Cons show ?case
    by (auto simp: p)
qed

lemma set_bkt_del_subset: "set (bkt_del k b) \<subseteq> set b"
  by (induction b) (auto split: if_splits)

lemma sorted_bkt_del:
  "sorted_wrt (<) (map fst b) \<Longrightarrow> sorted_wrt (<) (map fst (bkt_del k b))"
proof (induction b)
  case Nil
  then show ?case by simp
next
  case (Cons p b)
  then show ?case
    using set_bkt_del_subset [of k b] by (cases p) auto
qed

lemma map_of_bkt_del:
  "sorted_wrt (<) (map fst b) \<Longrightarrow> map_of (bkt_del k b) = (map_of b)(k := None)"
proof (induction b)
  case Nil
  then show ?case by simp
next
  case (Cons p b)
  obtain k' v' where p: "p = (k', v')" by (cases p)
  show ?case
  proof (cases "k = k'")
    case True
    have "map_of b k' = None"
      using Cons.prems by (force simp: p map_of_eq_None_iff)
    then show ?thesis
      using True by (auto simp: p fun_eq_iff)
  next
    case False
    then show ?thesis
      using Cons by (auto simp: p fun_eq_iff)
  qed
qed

lemma wf_bucket_Nil: "wf_bucket []"
  by (simp add: wf_bucket_def)

lemma wf_bucket_sorted: "wf_bucket b \<Longrightarrow> sorted_wrt (<) (map fst b)"
  by (simp add: wf_bucket_def)

lemma wf_bucket_nested:
  assumes "wf_bucket b" and "map_of b k = Some (Bkt sub)"
  shows "wf_bucket sub"
proof -
  have "(k, Bkt sub) \<in> set b"
    using assms(2) by (rule map_of_SomeD)
  then have "wf_node (Bkt sub)"
    using assms(1) by (force simp: wf_bucket_def)
  then show ?thesis
    by (simp add: wf_bucket_def)
qed

lemma wf_bucket_put: "wf_bucket b \<Longrightarrow> wf_node v \<Longrightarrow> wf_bucket (bkt_put k v b)"
  using set_bkt_put_subset [of k v b] by (auto simp: wf_bucket_def sorted_bkt_put)

lemma wf_bucket_del: "wf_bucket b \<Longrightarrow> wf_bucket (bkt_del k b)"
  using set_bkt_del_subset [of k b] by (auto simp: wf_bucket_def sorted_bkt_del)

lemma bkt_put_again: "bkt_put k v (bkt_put k v' b) = bkt_put k v b"
  by (induction b) auto

lemma bkt_del_absent: "map_of b k = None \<Longrightarrow> bkt_del k b = b"
  by (induction b) (auto split: if_splits)

lemma bkt_put_present:
  "sorted_wrt (<) (map fst b) \<Longrightarrow> map_of b k = Some v \<Longrightarrow> bkt_put k v b = b"
proof (induction b)
  case Nil
  then show ?case by simp
next
  case (Cons p b)
  obtain k' v' where p: "p = (k', v')" by (cases p)
  show ?case
  proof (cases "k = k'")
    case True
    then show ?thesis using Cons.prems by (simp add: p)
  next
    case False
    then have "(k, v) \<in> set b"
      using Cons.prems by (auto simp: p dest: map_of_SomeD)
    then have "k' < k"
      using Cons.prems by (auto simp: p)
    then show ?thesis
      using Cons False by (auto simp: p)
  qed
qed

lemma wf_db_Nil: "wf_db []"
  by (simp add: wf_db_def wf_bucket_def bolt_Bucket_def)

lemma wf_db_root:
  assumes "wf_db d"
  shows "map_of d k = None \<or> (\<exists>sub. map_of d k = Some (Bkt sub))"
proof (cases "map_of d k")
  case None
  then show ?thesis by simp
next
  case (Some n)
  then have "n \<in> set (map snd d)"
    by (force dest: map_of_SomeD)
  then have "is_bucket n"
    using assms by (auto simp: wf_db_def list_all_iff)
  then show ?thesis
    using Some by (cases n) auto
qed

lemma wf_db_lastRun_values:
  assumes "wf_db d"
  shows "map_of (lastRunBucket d) k = None \<or> (\<exists>v. map_of (lastRunBucket d) k = Some (Val v))"
proof (cases "map_of (lastRunBucket d) k")
  case None
  then show ?thesis by simp
next
  case (Some n)
  then have "n \<in> set (map snd (lastRunBucket d))"
    by (force dest: map_of_SomeD)
  then have "\<not> is_bucket n"
    using assms by (auto simp: wf_db_def lastRunBucket_def list_all_iff split: option.splits)
  then show ?thesis
    using Some by (cases n) auto
qed

lemma wf_bucket_lastRunBucket: "wf_db d \<Longrightarrow> wf_bucket (lastRunBucket d)"
  by (auto simp: wf_db_def lastRunBucket_def bolt_Bucket_def wf_bucket_Nil
      split: option.splits node.splits intro: wf_bucket_nested)

lemma createLastRun:
  assumes "wf_db d"
  shows "\<exists>d1. bolt_CreateBucketIfNotExists lastRunBktKey d = Inr (d1, lastRunBucket d)
     \<and> (\<forall>n. bkt_put lastRunBktKey n d1 = bkt_put lastRunBktKey n d)"
  using wf_db_root [OF assms, of lastRunBktKey]
  by (auto simp: bolt_CreateBucketIfNotExists_def lastRunBucket_def bolt_Bucket_def
      lastRunBktKey_def bkt_put_again)

lemma deleteLastRun_ok:
  assumes "wf_db d"
  shows "deleteLastRun True category d =
    (None, bkt_put lastRunBktKey (Bkt (bkt_del category (lastRunBucket d))) d)"
proof -
  obtain d1 where d1: "bolt_CreateBucketIfNotExists lastRunBktKey d = Inr (d1, lastRunBucket d)"
    and put: "\<And>n. bkt_put lastRunBktKey n d1 = bkt_put lastRunBktKey n d"
    using createLastRun [OF assms] by blast
  have "bolt_Delete category (lastRunBucket d) = Inr (bkt_del category (lastRunBucket d))"
    using wf_db_lastRun_values [OF assms, of category]
    by (auto simp: bolt_Delete_def bkt_del_absent)
  then show ?thesis
    by (simp add: deleteLastRun_def db_Update_def d1 put)
qed

lemma lastRunBucket_put: "lastRunBucket (bkt_put lastRunBktKey (Bkt b) d) = b"
  by (simp add: lastRunBucket_def bolt_Bucket_def map_of_bkt_put)

lemma lastRuns_dom:
  "fst (lastRuns d) category = Some i \<Longrightarrow> category \<in> fst ` set (lastRunBucket d)"
  by (auto simp: lastRuns_def lastRunBucket_def lastRuns_loop_eq
      split: option.splits list.splits if_splits)

lemma absent_after_del:
  "sorted_wrt (<) (map fst b) \<Longrightarrow> category \<notin> fst ` set (bkt_del category b)"
  using map_of_bkt_del [of b category] by (simp add: map_of_eq_None_iff [symmetric])

lemma lastRuns_after_delete:
  assumes "wf_db d"
  shows "fst (lastRuns (snd (deleteLastRun True category d))) category = None"
proof -
  have "category \<notin> fst ` set (lastRunBucket (snd (deleteLastRun True category d)))"
    using assms
    by (simp add: deleteLastRun_ok lastRunBucket_put absent_after_del
        wf_bucket_lastRunBucket wf_bucket_sorted)
  then show ?thesis
    using lastRuns_dom [of "snd (deleteLastRun True category d)" category]
    by (cases "fst (lastRuns (snd (deleteLastRun True category d))) category") auto
qed

lemma categoryItems_put_lastRun:
  "categoryItems category (bkt_put lastRunBktKey n d) = categoryItems category d"
  by (simp add: categoryItems_def bolt_Bucket_def map_of_bkt_put lastRunBktKey_def
      categoriesBkt_def)

subsection \<open>One call of showReminder\<close>

lemma int64_id: "- (2 ^ 63) \<le> x \<Longrightarrow> x < 2 ^ 63 \<Longrightarrow> int64 x = x"
  by (simp add: int64_def)

lemma showReminder_inactive:
  "activeReminders s category = None \<Longrightarrow> showReminder e category s = Some (False, s)"
  by (simp add: showReminder_def)

lemma showReminder_exhausted:
  "activeReminders s category = Some items \<Longrightarrow>
   int64 (lastIndexOf s category + 1) \<ge> int (length items) \<Longrightarrow>
   showReminder e category s = Some (False, s)"
  by (simp add: showReminder_def Let_def)

lemma showReminder_shows:
  assumes "activeReminders s category = Some items"
    and "- 1 \<le> lastIndexOf s category"
    and "lastIndexOf s category + 1 < int (length items)"
    and "int (length items) < 2 ^ 63"
  shows "showReminder e category s =
     Some (lastIndexOf s category + 2 < int (length items),
       s\<lparr>lastRunStatuses := (lastRunStatuses s)(category \<mapsto> lastIndexOf s category + 1),
         db := snd (saveLastRun (save_ok e) category (lastIndexOf s category + 1) (db s)),
         trace := trace s @
           [SaveLastRun category (lastIndexOf s category + 1)
              (fst (saveLastRun (save_ok e) category (lastIndexOf s category + 1) (db s))),
            ShowWindow category (items ! nat (lastIndexOf s category + 1)) (render_ok e)]\<rparr>)"
proof -
  let ?n = "lastIndexOf s category + 1"
  have n: "int64 ?n = ?n"
    using assms by (intro int64_id) auto
  have r1: "int64 (int (length items) - ?n) = int (length items) - ?n"
    using assms by (intro int64_id) auto
  have r2: "int64 (int (length items) - ?n - 1) = int (length items) - ?n - 1"
    using assms by (intro int64_id) auto
  have r3: "int64 (int (length items) - lastIndexOf s category - 2)
      = int (length items) - lastIndexOf s category - 2"
    using assms by (intro int64_id) auto
  have ne: "items \<noteq> []"
    using assms by auto
  show ?thesis
    using assms ne by (simp add: showReminder_def Let_def n r1 r2 r3) arith
qed

lemma killReminder_db:
  "db (killReminder e category s) = snd (deleteLastRun (delete_ok e) category (db s))"
  by (simp add: killReminder_def Let_def)

lemma quotes_first_show:
  "showReminder all_ok ''quotes'' quotes_state = Some (True, quotes_shown)"
  by (simp add: showReminder_def lastIndexOf_def quotes_state_def quotes_db_def quotes_items_def
      quotes_shown_def int64_def saveLastRun_def bolt_defs key_defs Itoa_small all_ok_def
      Let_def)

lemma overrun_resumed: "resume all_ok [''a'', ''c''] overrun_db = Some overrun_state"
  by (simp add: resume_def freshState_def lastRuns_def overrun_db_def overrun_state_def
      bolt_defs key_defs atoi_defs categoryItems_def example_defs startTimer_def
      lastIndexOf_def int64_def Let_def insert_commute)

lemma overrun_wf: "wf_db overrun_db"
  by (simp add: wf_db_def wf_bucket_def overrun_db_def item_node_def bolt_Bucket_def key_defs)

lemma tick_idle: "category \<notin> tickers s \<Longrightarrow> tick e category s = Some s"
  by (simp add: tick_def)

lemma ticks_idle: "category \<notin> tickers s \<Longrightarrow> ticks es category s = Some s"
  by (induction es) (simp_all add: tick_idle)

subsection \<open>Ingestion and listing\<close>

lemma collectItems_names:
  "map Name (collectItems b) = map fst (filter (\<lambda>p. is_bucket (snd p)) b)"
  by (induction b rule: collectItems.induct) auto

lemma sorted_collectItems:
  "sorted_wrt (<) (map fst b) \<Longrightarrow> sorted_wrt (<) (map Name (collectItems b))"
  by (simp add: collectItems_names sorted_wrt_map sorted_wrt_filter)

lemma bolt_Bucket_iff:
  "sorted_wrt (<) (map fst b) \<Longrightarrow>
   (bolt_Bucket k b \<noteq> None) = (\<exists>sub. (k, Bkt sub) \<in> set b)"
proof -
  assume "sorted_wrt (<) (map fst b)"
  then have "distinct (map fst b)"
    using strict_sorted_iff by blast
  then have "(\<exists>sub. map_of b k = Some (Bkt sub)) = (\<exists>sub. (k, Bkt sub) \<in> set b)"
    by (simp add: map_of_eq_Some_iff)
  moreover have "(bolt_Bucket k b \<noteq> None) = (\<exists>sub. map_of b k = Some (Bkt sub))"
    by (auto simp: bolt_Bucket_def split: option.splits node.splits)
  ultimately show ?thesis
    by simp
qed

lemma set_collectItems_names:
  assumes "sorted_wrt (<) (map fst b)"
  shows "set (map Name (collectItems b)) = {k. bolt_Bucket k b \<noteq> None}"
proof -
  have "set (map Name (collectItems b)) = {k. \<exists>sub. (k, Bkt sub) \<in> set b}"
    unfolding collectItems_names
  proof (intro set_eqI iffI)
    fix k
    assume "k \<in> set (map fst (filter (\<lambda>p. is_bucket (snd p)) b))"
    then obtain n where "(k, n) \<in> set b" "is_bucket n"
      by auto
    then show "k \<in> {k. \<exists>sub. (k, Bkt sub) \<in> set b}"
      by (cases n) auto
  next
    fix k
    assume "k \<in> {k. \<exists>sub. (k, Bkt sub) \<in> set b}"
    then show "k \<in> set (map fst (filter (\<lambda>p. is_bucket (snd p)) b))"
      by force
  qed
  then show ?thesis
    using bolt_Bucket_iff [OF assms] by auto
qed

lemma bolt_Bucket_put:
  "bolt_Bucket k (bkt_put k' (Bkt sub) b) = (if k = k' then Some sub else bolt_Bucket k b)"
  by (simp add: bolt_Bucket_def map_of_bkt_put)

lemma createBucket_result:
  assumes "bolt_CreateBucketIfNotExists name b = Inr (b1, sub)"
  shows "sub = (case bolt_Bucket name b of None \<Rightarrow> [] | Some x \<Rightarrow> x)"
    and "bkt_put name n b1 = bkt_put name n b"
  using assms
  by (auto simp: bolt_CreateBucketIfNotExists_def bolt_Bucket_def bkt_put_again
      split: if_splits option.splits node.splits)

lemma wf_bucket_opened:
  assumes "wf_bucket b"
  shows "wf_bucket (case bolt_Bucket name b of None \<Rightarrow> [] | Some x \<Rightarrow> x)"
  using assms
  by (auto simp: bolt_Bucket_def wf_bucket_Nil split: option.splits node.splits
      intro: wf_bucket_nested)

lemma wf_bucket_bolt_Put:
  "wf_bucket b \<Longrightarrow> bolt_Put key val b = Inr b' \<Longrightarrow> wf_bucket b'"
  by (auto simp: bolt_Put_def wf_bucket_put split: if_splits option.splits node.splits)

lemma wf_node_Bkt: "wf_node (Bkt b) = wf_bucket b"
  by (simp add: wf_bucket_def)

lemma putItems_names:
  assumes "wf_bucket catBucket" and "putItems its catBucket = Inr catBucket'"
  shows "wf_bucket catBucket' \<and>
    {k. bolt_Bucket k catBucket' \<noteq> None} = {k. bolt_Bucket k catBucket \<noteq> None} \<union> set (map Name its)"
  using assms
proof (induction its arbitrary: catBucket)
  case Nil
  then show ?case by simp
next
  case (Cons item rest)
  from Cons.prems(2) obtain catBucket1 itemBucket itemBucket1 itemBucket2 where
    cr: "bolt_CreateBucketIfNotExists (Name item) catBucket = Inr (catBucket1, itemBucket)"
    and p1: "bolt_Put itemTypeKey (Type item) itemBucket = Inr itemBucket1"
    and p2: "bolt_Put itemContentKey (Content item) itemBucket1 = Inr itemBucket2"
    and rest: "putItems rest (bkt_put (Name item) (Bkt itemBucket2) catBucket1) = Inr catBucket'"
    by (auto split: sum.splits)
  let ?next = "bkt_put (Name item) (Bkt itemBucket2) catBucket"
  have nx: "bkt_put (Name item) (Bkt itemBucket2) catBucket1 = ?next"
    using cr by (rule createBucket_result(2))
  have "wf_bucket itemBucket"
    using createBucket_result(1) [OF cr] wf_bucket_opened [OF Cons.prems(1)] by simp
  then have "wf_bucket itemBucket2"
    using p1 p2 by (blast intro: wf_bucket_bolt_Put)
  then have wf: "wf_bucket ?next"
    using Cons.prems(1) by (intro wf_bucket_put) (simp_all add: wf_bucket_def)
  have names: "{k. bolt_Bucket k ?next \<noteq> None} = insert (Name item) {k. bolt_Bucket k catBucket \<noteq> None}"
    by (auto simp: bolt_Bucket_put)
  show ?case
    using Cons.IH [OF wf] rest names by (simp add: nx)
qed

lemma categoryBucket_opened:
  "categoryBucket category d =
     (case bolt_Bucket category (case bolt_Bucket categoriesBkt d of None \<Rightarrow> [] | Some x \<Rightarrow> x) of
        None \<Rightarrow> [] | Some b \<Rightarrow> b)"
  by (simp add: categoryBucket_def bolt_Bucket_def split: option.splits)

lemma wf_bucket_categoryBucket: "wf_bucket d \<Longrightarrow> wf_bucket (categoryBucket category d)"
  unfolding categoryBucket_opened by (intro wf_bucket_opened)

lemma categoryItems_collect:
  "categoryItems category d = Inr items \<Longrightarrow> items = collectItems (categoryBucket category d)"
  by (auto simp: categoryItems_def categoryBucket_def split: option.splits)

lemma categoryItems_unknown:
  "categoryItems category d = Inl err \<Longrightarrow> categoryBucket category d = []"
  by (auto simp: categoryItems_def categoryBucket_def split: option.splits)

lemma putCategories_names:
  assumes "wf_bucket tx" and "putCategories cats tx = Inr tx'"
  shows "wf_bucket tx' \<and>
    (\<forall>c. {k. bolt_Bucket k (categoryBucket c tx') \<noteq> None} =
       {k. bolt_Bucket k (categoryBucket c tx) \<noteq> None}
       \<union> set (concat (map (\<lambda>cat. map Name (Items cat))
                          (filter (\<lambda>cat. CategoryName cat = c) cats))))"
  using assms
proof (induction cats arbitrary: tx)
  case Nil
  then show ?case by simp
next
  case (Cons category rest)
  let ?cname = "CategoryName category"
  from Cons.prems(2) obtain tx1 catsBucket catsBucket1 catBucket catBucket1 where
    cr1: "bolt_CreateBucketIfNotExists categoriesBkt tx = Inr (tx1, catsBucket)"
    and cr2: "bolt_CreateBucketIfNotExists ?cname catsBucket = Inr (catsBucket1, catBucket)"
    and pi: "putItems (Items category) catBucket = Inr catBucket1"
    and rest: "putCategories rest
        (bkt_put categoriesBkt (Bkt (bkt_put ?cname (Bkt catBucket1) catsBucket1)) tx1) = Inr tx'"
    by (auto split: sum.splits)
  let ?cats2 = "bkt_put ?cname (Bkt catBucket1) catsBucket"
  let ?tx2 = "bkt_put categoriesBkt (Bkt ?cats2) tx"
  have tx2: "bkt_put categoriesBkt (Bkt (bkt_put ?cname (Bkt catBucket1) catsBucket1)) tx1 = ?tx2"
    by (simp add: createBucket_result(2) [OF cr1] createBucket_result(2) [OF cr2])
  have cs: "catsBucket = (case bolt_Bucket categoriesBkt tx of None \<Rightarrow> [] | Some x \<Rightarrow> x)"
    using cr1 by (rule createBucket_result(1))
  have cb: "catBucket = categoryBucket ?cname tx"
    using createBucket_result(1) [OF cr2] by (simp add: categoryBucket_opened cs)
  have wfcs: "wf_bucket catsBucket"
    unfolding cs using Cons.prems(1) by (rule wf_bucket_opened)
  have wfcb: "wf_bucket catBucket"
    unfolding cb using Cons.prems(1) by (rule wf_bucket_categoryBucket)
  note items = putItems_names [OF wfcb pi]
  have "wf_bucket ?cats2"
    using wfcs items by (intro wf_bucket_put) (simp_all add: wf_bucket_def)
  then have wf2: "wf_bucket ?tx2"
    using Cons.prems(1) by (intro wf_bucket_put) (simp_all add: wf_bucket_def)
  have other: "categoryBucket c ?tx2 = (if c = ?cname then catBucket1 else categoryBucket c tx)" for c
    by (simp add: categoryBucket_opened [of c tx] cs [symmetric])
      (simp add: categoryBucket_def bolt_Bucket_put)
  have "{k. bolt_Bucket k (categoryBucket c ?tx2) \<noteq> None} =
       {k. bolt_Bucket k (categoryBucket c tx) \<noteq> None}
       \<union> (if ?cname = c then set (map Name (Items category)) else {})" for c
    using items by (auto simp: other cb)
  then show ?case
    using Cons.IH [OF wf2] rest by (auto simp: tx2)
qed

lemma news_ingested: "downloadFromAPI True news_feed [] = (None, news_db)"
  by (simp add: downloadFromAPI_def news_feed_def news_db_def bolt_defs key_defs example_defs)

lemma news_items:
  "categoryItems ''news'' news_db =
     Inr [example_item ''alpha'', example_item ''mango'', example_item ''zeta'']"
  by (simp add: categoryItems_def news_db_def bolt_defs key_defs example_defs)

subsection \<open>The ledger's transactions\<close>

lemma length_nat_digits: "0 < k \<Longrightarrow> n < 10 ^ k \<Longrightarrow> length (nat_digits n) \<le> k"
proof (induction k arbitrary: n)
  case 0
  then show ?case by simp
next
  case (Suc k)
  show ?case
  proof (cases "n < 10")
    case True
    then show ?thesis
      by (simp add: nat_digits.simps [of n])
  next
    case False
    then have k: "0 < k"
      using Suc.prems by (cases k) auto
    have "n div 10 < 10 ^ k"
      using Suc.prems by (simp add: less_mult_imp_div_less mult.commute)
    then have "length (nat_digits (n div 10)) \<le> k"
      using k by (rule Suc.IH [rotated])
    then show ?thesis
      using False by (simp add: nat_digits.simps [of n])
  qed
qed

lemma length_Itoa:
  assumes "- (2 ^ 63) \<le> i" and "i < 2 ^ 63"
  shows "length (Itoa i) \<le> 20"
proof -
  have "nat \<bar>i\<bar> < 10 ^ 19"
    using assms by simp
  then have "length (nat_digits (nat \<bar>i\<bar>)) \<le> 19"
    by (intro length_nat_digits) simp_all
  then show ?thesis
    by (auto simp: Itoa_def abs_if split: if_splits)
qed

lemma saveLastRun_ok:
  assumes "wf_db d" and "category \<noteq> []" and "length category \<le> 32768"
    and "- (2 ^ 63) \<le> i" and "i < 2 ^ 63"
  shows "saveLastRun True category i d =
    (None, bkt_put lastRunBktKey (Bkt (bkt_put category (Val (Itoa i)) (lastRunBucket d))) d)"
proof -
  obtain d1 where d1: "bolt_CreateBucketIfNotExists lastRunBktKey d = Inr (d1, lastRunBucket d)"
    and put: "\<And>n. bkt_put lastRunBktKey n d1 = bkt_put lastRunBktKey n d"
    using createLastRun [OF assms(1)] by blast
  have "length (Itoa i) \<le> 20"
    using assms by (intro length_Itoa)
  then have "bolt_Put category (Itoa i) (lastRunBucket d) =
      Inr (bkt_put category (Val (Itoa i)) (lastRunBucket d))"
    using wf_db_lastRun_values [OF assms(1), of category] assms(2,3)
    by (auto simp: bolt_Put_def)
  then show ?thesis
    by (simp add: saveLastRun_def db_Update_def d1 put)
qed

lemma int64_sub: "int64 (int64 x - y) = int64 (x - y)"
proof -
  have "(int64 x - y + 2 ^ 63) mod 2 ^ 64 = ((x + 2 ^ 63) mod 2 ^ 64 - y) mod 2 ^ 64"
    by (simp add: int64_def)
  also have "\<dots> = (x + 2 ^ 63 - y) mod 2 ^ 64"
    by (rule mod_diff_left_eq)
  also have "\<dots> = (x - y + 2 ^ 63) mod 2 ^ 64"
    by (simp add: algebra_simps)
  finally show ?thesis
    by (simp add: int64_def)
qed

lemma categoryItems_after_delete:
  "wf_db d \<Longrightarrow>
   categoryItems category' (snd (deleteLastRun True category d)) = categoryItems category' d"
  by (simp add: deleteLastRun_ok categoryItems_put_lastRun)

lemma deleteLastRun_failed_commit:
  "fst (deleteLastRun False category d) \<noteq> None \<and> snd (deleteLastRun False category d) = d"
  by (simp add: deleteLastRun_def db_Update_def split: sum.splits)

lemma wf_db_put_lastRun:
  assumes "wf_db d" and "wf_bucket b" and "list_all (\<lambda>n. \<not> is_bucket n) (map snd b)"
  shows "wf_db (bkt_put lastRunBktKey (Bkt b) d)"
proof -
  have "wf_bucket (bkt_put lastRunBktKey (Bkt b) d)"
    using assms by (intro wf_bucket_put) (simp_all add: wf_db_def wf_bucket_def)
  moreover have "list_all is_bucket (map snd (bkt_put lastRunBktKey (Bkt b) d))"
    using assms(1) set_bkt_put_subset [of lastRunBktKey "Bkt b" d]
    by (auto simp: wf_db_def list_all_iff)
  ultimately show ?thesis
    using assms(3) by (simp add: wf_db_def bolt_Bucket_def map_of_bkt_put)
qed

lemma lastRunBucket_values: "wf_db d \<Longrightarrow> list_all (\<lambda>n. \<not> is_bucket n) (map snd (lastRunBucket d))"
  by (auto simp: wf_db_def lastRunBucket_def split: option.splits)

lemma wf_db_deleteLastRun:
  assumes "wf_db d"
  shows "wf_db (snd (deleteLastRun ok category d))"
proof (cases ok)
  case True
  have "list_all (\<lambda>n. \<not> is_bucket n) (map snd (bkt_del category (lastRunBucket d)))"
    using lastRunBucket_values [OF assms] set_bkt_del_subset [of category "lastRunBucket d"]
    by (auto simp: list_all_iff)
  then show ?thesis
    using True assms
    by (simp add: deleteLastRun_ok wf_db_put_lastRun wf_bucket_del wf_bucket_lastRunBucket)
next
  case False
  then show ?thesis
    using assms deleteLastRun_failed_commit [of category d] by simp
qed

lemma deleteLastRun_again:
  assumes "wf_db d"
  shows "deleteLastRun True category (snd (deleteLastRun True category d))
    = (None, snd (deleteLastRun True category d))"
proof -
  let ?b = "bkt_del category (lastRunBucket d)"
  have "map_of ?b category = None"
    using assms by (simp add: map_of_bkt_del wf_bucket_lastRunBucket wf_bucket_sorted)
  then have "bkt_del category ?b = ?b"
    by (rule bkt_del_absent)
  then show ?thesis
    using assms wf_db_deleteLastRun [OF assms, of True category]
    by (simp add: deleteLastRun_ok lastRunBucket_put bkt_put_again)
qed

subsection \<open>Steps of the scheduler\<close>

lemma shown_append: "shown category (xs @ ys) = shown category xs @ shown category ys"
  by (induction category xs rule: shown.induct) auto

lemma saved_append: "saved category (xs @ ys) = saved category xs @ saved category ys"
  by (induction category xs rule: saved.induct) auto

lemma saveLastRun_failed_commit:
  "fst (saveLastRun False category index d) \<noteq> None \<and> snd (saveLastRun False category index d) = d"
  by (simp add: saveLastRun_def db_Update_def split: sum.splits)

lemma tick_shows:
  assumes "category \<in> tickers s"
    and "activeReminders s category = Some items"
    and "- 1 \<le> lastIndexOf s category"
    and "lastIndexOf s category + 2 < int (length items)"
    and "int (length items) < 2 ^ 63"
  shows "tick e category s =
     Some (s\<lparr>lastRunStatuses := (lastRunStatuses s)(category \<mapsto> lastIndexOf s category + 1),
         db := snd (saveLastRun (save_ok e) category (lastIndexOf s category + 1) (db s)),
         trace := trace s @
           [SaveLastRun category (lastIndexOf s category + 1)
              (fst (saveLastRun (save_ok e) category (lastIndexOf s category + 1) (db s))),
            ShowWindow category (items ! nat (lastIndexOf s category + 1)) (render_ok e)]\<rparr>)"
  using assms by (simp add: tick_def showReminder_shows)

lemma tick_last_item:
  assumes "category \<in> tickers s"
    and "activeReminders s category = Some items"
    and "- 1 \<le> lastIndexOf s category"
    and "lastIndexOf s category + 2 = int (length items)"
    and "int (length items) < 2 ^ 63"
  shows "\<exists>s'. tick e category s = Some s'
    \<and> category \<notin> tickers s'
    \<and> lastRunStatuses s' category = None
    \<and> shown category (trace s') =
        shown category (trace s) @ [items ! nat (lastIndexOf s category + 1)]
    \<and> saved category (trace s') = saved category (trace s) @ [lastIndexOf s category + 1]"
  using assms
  by (simp add: tick_def showReminder_shows killReminder_def Let_def shown_append saved_append)

lemma tick_past_end:
  assumes "category \<in> tickers s"
    and "activeReminders s category = Some items"
    and "lastIndexOf s category + 1 = int (length items)"
    and "int (length items) < 2 ^ 63"
  shows "\<exists>s'. tick e category s = Some s'
    \<and> category \<notin> tickers s'
    \<and> lastRunStatuses s' category = None
    \<and> shown category (trace s') = shown category (trace s)
    \<and> saved category (trace s') = saved category (trace s)"
proof -
  have "int64 (lastIndexOf s category + 1) = lastIndexOf s category + 1"
    using assms by (intro int64_id) auto
  then have "showReminder e category s = Some (False, s)"
    using assms by (simp add: showReminder_exhausted)
  then show ?thesis
    using assms by (simp add: tick_def killReminder_def Let_def shown_append saved_append)
qed

lemma lastIndexOf_active [simp]:
  "lastIndexOf (s\<lparr>activeReminders := m\<rparr>) category = lastIndexOf s category"
  by (simp add: lastIndexOf_def)

lemma startButton_running:
  "activeReminders s category \<noteq> None \<Longrightarrow>
   startButton e noDelay (Some category) s = Some (Some (AlreadyRunning category), s)"
  by (simp add: startButton_def)

lemma cancel_idle: "category \<notin> tickers s \<Longrightarrow> cancel e category s = s"
  by (simp add: cancel_def)

lemma cancel_running:
  assumes "category \<in> tickers s"
  shows "cancel e category s =
    s\<lparr>tickers := tickers s - {category},
      activeReminders := (activeReminders s)(category := None),
      lastRunStatuses := (lastRunStatuses s)(category := None),
      db := snd (deleteLastRun (delete_ok e) category (db s)),
      trace := trace s @ [DeleteLastRun category (fst (deleteLastRun (delete_ok e) category (db s)))]\<rparr>"
  using assms by (simp add: cancel_def killReminder_def Let_def)

lemma start_from_scratch:
  assumes "activeReminders s category = None"
    and "lastRunStatuses s category = None"
    and "category \<notin> tickers s"
    and "categoryItems category (db s) = Inr items"
    and "items \<noteq> []"
    and "int (length items) < 2 ^ 63"
  shows "\<exists>s1. startButton e1 True (Some category) s = Some (None, s1)
      \<and> shown category (trace s1) = shown category (trace s) @ [items ! 0]
      \<and> saved category (trace s1) = saved category (trace s) @ [0]
      \<and> lastRunStatuses s1 category = Some 0"
    and "\<exists>s1 s2. startButton e1 False (Some category) s = Some (None, s1)
      \<and> trace s1 = trace s
      \<and> lastRunStatuses s1 category = None
      \<and> tick e2 category s1 = Some s2
      \<and> shown category (trace s2) = shown category (trace s) @ [items ! 0]
      \<and> saved category (trace s2) = saved category (trace s) @ [0]"
proof -
  let ?s0 = "s\<lparr>activeReminders := (activeReminders s)(category \<mapsto> items)\<rparr>"
  have li: "lastIndexOf s category = - 1"
    using assms(2) by (simp add: lastIndexOf_def)
  have rem: "int64 (int64 (int (length items) - lastIndexOf s category) - 1) = int (length items)"
    using assms(6) by (simp add: int64_sub li int64_id)
  have len: "0 < int (length items)"
    using assms(5) by simp
  have shows0: "showReminder e category ?s0 =
     Some (1 < int (length items),
       ?s0\<lparr>lastRunStatuses := (lastRunStatuses ?s0)(category \<mapsto> 0),
         db := snd (saveLastRun (save_ok e) category 0 (db ?s0)),
         trace := trace ?s0 @
           [SaveLastRun category 0 (fst (saveLastRun (save_ok e) category 0 (db ?s0))),
            ShowWindow category (items ! 0) (render_ok e)]\<rparr>)" for e
    using showReminder_shows [of ?s0 category items e] assms(5,6) by (simp add: li)
  show "\<exists>s1. startButton e1 True (Some category) s = Some (None, s1)
      \<and> shown category (trace s1) = shown category (trace s) @ [items ! 0]
      \<and> saved category (trace s1) = saved category (trace s) @ [0]
      \<and> lastRunStatuses s1 category = Some 0"
    using assms(1,4,5) rem len
    by (simp add: startButton_def startTimer_def Let_def shows0 shown_append saved_append)
  let ?s1 = "?s0\<lparr>tickers := insert category (tickers ?s0)\<rparr>"
  have start: "startButton e1 False (Some category) s = Some (None, ?s1)"
    using assms(1,4,5) rem len by (simp add: startButton_def startTimer_def Let_def)
  have shows1: "showReminder e2 category ?s1 =
     Some (1 < int (length items),
       ?s1\<lparr>lastRunStatuses := (lastRunStatuses ?s1)(category \<mapsto> 0),
         db := snd (saveLastRun (save_ok e2) category 0 (db ?s1)),
         trace := trace ?s1 @
           [SaveLastRun category 0 (fst (saveLastRun (save_ok e2) category 0 (db ?s1))),
            ShowWindow category (items ! 0) (render_ok e2)]\<rparr>)"
    using showReminder_shows [of ?s1 category items e2] assms(2,5,6)
    by (simp add: lastIndexOf_def)
  have "\<exists>s2. tick e2 category ?s1 = Some s2
      \<and> shown category (trace s2) = shown category (trace s) @ [items ! 0]
      \<and> saved category (trace s2) = saved category (trace s) @ [0]"
    using shows1 by (simp add: tick_def killReminder_def Let_def shown_append saved_append)
  then show "\<exists>s1 s2. startButton e1 False (Some category) s = Some (None, s1)
      \<and> trace s1 = trace s
      \<and> lastRunStatuses s1 category = None
      \<and> tick e2 category s1 = Some s2
      \<and> shown category (trace s2) = shown category (trace s) @ [items ! 0]
      \<and> saved category (trace s2) = saved category (trace s) @ [0]"
    using start assms(2) by auto
qed

lemma start_on_empty:
  "activeReminders s category = None \<Longrightarrow> categoryItems category (db s) = Inr [] \<Longrightarrow>
   startButton e noDelay (Some category) s =
     Some (None, s\<lparr>activeReminders := (activeReminders s)(category \<mapsto> [])\<rparr>)"
  by (simp add: startButton_def startTimer_def)

lemma quotes_state_facts:
  "''quotes'' \<in> tickers quotes_state"
  "activeReminders quotes_state ''quotes'' = Some quotes_items"
  "lastIndexOf quotes_state ''quotes'' = - 1"
  "int (length quotes_items) = 3"
  "trace quotes_state = []"
  "db quotes_state = quotes_db"
  by (simp_all add: quotes_state_def quotes_items_def lastIndexOf_def)

lemma solo_facts:
  "activeReminders (freshState solo_db) ''solo'' = None"
  "''solo'' \<notin> tickers (freshState solo_db)"
  "categoryItems ''solo'' (db (freshState solo_db)) = Inr [example_item ''s0'']"
  "lastIndexOf (freshState solo_db) ''solo'' = - 1"
  "wf_db (db (freshState solo_db))"
  "trace (freshState solo_db) = []"
  by (simp_all add: freshState_def solo_db_def categoryItems_def bolt_defs key_defs
      example_defs lastIndexOf_def wf_db_def wf_bucket_def)

lemma quotes_shown_facts:
  "''quotes'' \<in> tickers quotes_shown"
  "wf_db (db quotes_shown)"
  "categoryItems ''quotes'' (db quotes_shown) = Inr quotes_items"
  "quotes_items \<noteq> []"
  "int (length quotes_items) < 2 ^ 63"
  "lastRuns (db quotes_shown) = ([''quotes'' \<mapsto> 0], None)"
  "trace quotes_shown = [SaveLastRun ''quotes'' 0 None, ShowWindow ''quotes'' (example_item ''q0'') True]"
  "quotes_items ! 0 = example_item ''q0''"
  by (simp_all add: quotes_shown_def quotes_items_def categoryItems_def bolt_defs key_defs
      example_defs wf_db_def wf_bucket_def lastRuns_def atoi_defs)

subsection \<open>The database invariant\<close>

text \<open>Every operation of the program takes a database that satisfies \<^const>\<open>wf_db\<close> to one
  that does; the empty database satisfies it (\<open>wf_db_Nil\<close>).\<close>

lemma wf_db_saveLastRun:
  assumes "wf_db d"
  shows "wf_db (snd (saveLastRun ok category i d))"
proof -
  obtain d1 where d1: "bolt_CreateBucketIfNotExists lastRunBktKey d = Inr (d1, lastRunBucket d)"
    and put: "\<And>n. bkt_put lastRunBktKey n d1 = bkt_put lastRunBktKey n d"
    using createLastRun [OF assms] by blast
  show ?thesis
  proof (cases "bolt_Put category (Itoa i) (lastRunBucket d)")
    case (Inl err)
    then show ?thesis
      using assms by (simp add: saveLastRun_def db_Update_def d1)
  next
    case (Inr b1)
    then have b1: "b1 = bkt_put category (Val (Itoa i)) (lastRunBucket d)"
      by (auto simp: bolt_Put_def split: if_splits option.splits node.splits)
    have "wf_bucket b1"
      unfolding b1 using wf_bucket_lastRunBucket [OF assms] by (intro wf_bucket_put) simp_all
    moreover have "list_all (\<lambda>n. \<not> is_bucket n) (map snd b1)"
      using lastRunBucket_values [OF assms]
        set_bkt_put_subset [of category "Val (Itoa i)" "lastRunBucket d"]
      by (auto simp: b1 list_all_iff)
    ultimately have "wf_db (bkt_put lastRunBktKey (Bkt b1) d)"
      using assms by (intro wf_db_put_lastRun)
    then show ?thesis
      using assms Inr by (simp add: saveLastRun_def db_Update_def d1 put)
  qed
qed

lemma wf_db_put_categories:
  assumes "wf_db d" and "wf_bucket cats"
  shows "wf_db (bkt_put categoriesBkt (Bkt cats) d)"
proof -
  have "wf_bucket (bkt_put categoriesBkt (Bkt cats) d)"
    using assms by (intro wf_bucket_put) (simp_all add: wf_db_def wf_bucket_def)
  moreover have "list_all is_bucket (map snd (bkt_put categoriesBkt (Bkt cats) d))"
    using assms(1) set_bkt_put_subset [of categoriesBkt "Bkt cats" d]
    by (auto simp: wf_db_def list_all_iff)
  moreover have "bolt_Bucket lastRunBktKey (bkt_put categoriesBkt (Bkt cats) d)
      = bolt_Bucket lastRunBktKey d"
    by (simp add: bolt_Bucket_put key_defs)
  ultimately show ?thesis
    using assms(1) by (simp add: wf_db_def)
qed

lemma wf_db_putCategories:
  assumes "wf_db tx" and "putCategories cats tx = Inr tx'"
  shows "wf_db tx'"
  using assms
proof (induction cats arbitrary: tx)
  case Nil
  then show ?case by simp
next
  case (Cons category rest)
  let ?cname = "CategoryName category"
  from Cons.prems(2) obtain tx1 catsBucket catsBucket1 catBucket catBucket1 where
    cr1: "bolt_CreateBucketIfNotExists categoriesBkt tx = Inr (tx1, catsBucket)"
    and cr2: "bolt_CreateBucketIfNotExists ?cname catsBucket = Inr (catsBucket1, catBucket)"
    and pi: "putItems (Items category) catBucket = Inr catBucket1"
    and rest: "putCategories rest
        (bkt_put categoriesBkt (Bkt (bkt_put ?cname (Bkt catBucket1) catsBucket1)) tx1) = Inr tx'"
    by (auto split: sum.splits)
  let ?cats2 = "bkt_put ?cname (Bkt catBucket1) catsBucket"
  let ?tx2 = "bkt_put categoriesBkt (Bkt ?cats2) tx"
  have tx2: "bkt_put categoriesBkt (Bkt (bkt_put ?cname (Bkt catBucket1) catsBucket1)) tx1 = ?tx2"
    by (simp add: createBucket_result(2) [OF cr1] createBucket_result(2) [OF cr2])
  have wft: "wf_bucket tx"
    using Cons.prems(1) by (simp add: wf_db_def)
  have wfcs: "wf_bucket catsBucket"
    unfolding createBucket_result(1) [OF cr1] using wft by (rule wf_bucket_opened)
  have wfcb: "wf_bucket catBucket"
    unfolding createBucket_result(1) [OF cr2] using wfcs by (rule wf_bucket_opened)
  have "wf_bucket catBucket1"
    using putItems_names [OF wfcb pi] by simp
  then have "wf_bucket ?cats2"
    using wfcs by (intro wf_bucket_put) (simp_all add: wf_bucket_def)
  then have "wf_db ?tx2"
    using Cons.prems(1) by (intro wf_db_put_categories)
  then show ?case
    using rest by (intro Cons.IH) (simp_all add: tx2)
qed

lemma wf_db_downloadFromAPI:
  "wf_db d \<Longrightarrow> wf_db (snd (downloadFromAPI ok catItems d))"
  by (auto simp: downloadFromAPI_def db_Update_def wf_db_putCategories split: sum.splits)

lemma wf_db_killReminder: "wf_db (db s) \<Longrightarrow> wf_db (db (killReminder e category s))"
  by (simp add: killReminder_db wf_db_deleteLastRun)

lemma wf_db_showReminder:
  "wf_db (db s) \<Longrightarrow> showReminder e category s = Some (again, s') \<Longrightarrow> wf_db (db s')"
  by (auto simp: showReminder_def Let_def wf_db_saveLastRun split: option.splits if_splits)

lemma wf_db_tick:
  assumes "wf_db (db s)" and "tick e category s = Some s'"
  shows "wf_db (db s')"
proof (cases "category \<in> tickers s")
  case False
  then show ?thesis
    using assms by (simp add: tick_def)
next
  case True
  then obtain again s1 where s1: "showReminder e category s = Some (again, s1)"
    using assms(2) by (auto simp: tick_def split: option.splits)
  have wf1: "wf_db (db s1)"
    using assms(1) s1 by (rule wf_db_showReminder)
  show ?thesis
  proof (cases again)
    case True
    then show ?thesis
      using assms(2) \<open>category \<in> tickers s\<close> s1 wf1 by (simp add: tick_def)
  next
    case False
    then have "s' = killReminder e category (s1\<lparr>tickers := tickers s1 - {category}\<rparr>)"
      using assms(2) \<open>category \<in> tickers s\<close> s1 by (simp add: tick_def)
    then show ?thesis
      using wf1 by (simp add: killReminder_db wf_db_deleteLastRun)
  qed
qed

lemma wf_db_cancel: "wf_db (db s) \<Longrightarrow> wf_db (db (cancel e category s))"
  by (simp add: cancel_def killReminder_db wf_db_deleteLastRun)

lemma startTimer_cases:
  assumes "startTimer e immediateDisplay category s = Some s'"
  shows "db s' = db s \<or> (\<exists>again s1. showReminder e category s = Some (again, s1) \<and> db s' = db s1)"
proof (cases "activeReminders s category")
  case None
  then show ?thesis
    using assms by (simp add: startTimer_def)
next
  case (Some items)
  show ?thesis
  proof (cases "length items = 0 \<or>
      int64 (int64 (int (length items) - lastIndexOf s category) - 1) = 0 \<or> \<not> immediateDisplay")
    case True
    then show ?thesis
      using assms Some by (auto simp: startTimer_def Let_def split: if_splits)
  next
    case False
    then have run: "(case showReminder e category s of
                    None \<Rightarrow> None
                  | Some (again, s1) \<Rightarrow>
                      if \<not> again then Some s1
                      else Some (s1\<lparr>tickers := insert category (tickers s1)\<rparr>)) = Some s'"
      using assms Some by (simp add: startTimer_def Let_def)
    then obtain again s1 where s1: "showReminder e category s = Some (again, s1)"
      by (cases "showReminder e category s") auto
    then have "db s' = db s1"
      using run by (cases again) auto
    then show ?thesis
      using s1 by blast
  qed
qed

lemma wf_db_startTimer:
  assumes "wf_db (db s)" and "startTimer e immediateDisplay category s = Some s'"
  shows "wf_db (db s')"
  using startTimer_cases [OF assms(2)] assms(1) wf_db_showReminder [of s e category]
  by auto

lemma wf_db_startButton:
  assumes "wf_db (db s)" and "startButton e noDelay selected s = Some (msg, s')"
  shows "wf_db (db s')"
proof (cases selected)
  case None
  then show ?thesis
    using assms by (simp add: startButton_def)
next
  case (Some c)
  show ?thesis
  proof (cases "activeReminders s c \<noteq> None")
    case True
    then show ?thesis
      using assms Some by (simp add: startButton_def)
  next
    case False
    show ?thesis
    proof (cases "categoryItems c (db s)")
      case (Inl err)
      then show ?thesis
        using assms Some False by (simp add: startButton_def)
    next
      case (Inr items)
      let ?s0 = "s\<lparr>activeReminders := (activeReminders s)(c \<mapsto> items)\<rparr>"
      have "startTimer e noDelay c ?s0 = Some s'"
        using assms(2) Some False Inr
        by (cases "startTimer e noDelay c ?s0") (simp_all add: startButton_def)
      then show ?thesis
        using assms(1) wf_db_startTimer [of ?s0 e noDelay c s'] by simp
    qed
  qed
qed

section \<open>The order of a category's items\<close>

text \<open>
  Claim C1, as amended. After an ingestion that succeeded, \<^verbatim>\<open>categoryItems\<close> returns the
  category's items in strictly ascending byte order of their names, each name once: the
  names are those the category had before together with those the feed gave it, whatever the
  order in which the feed listed them.
\<close>

theorem categoryItems_in_key_order:
  assumes "wf_bucket d"
    and "downloadFromAPI commit_ok catItems d = (None, d')"
    and "categoryItems category d' = Inr items"
  shows "sorted_wrt (<) (map Name items)
    \<and> set (map Name items) =
        (case categoryItems category d of Inl err \<Rightarrow> {} | Inr old \<Rightarrow> set (map Name old))
        \<union> set (concat (map (\<lambda>cat. map Name (Items cat))
                           (filter (\<lambda>cat. CategoryName cat = category) catItems)))"
proof -
  have put: "putCategories catItems d = Inr d'"
    using assms(2) by (auto simp: downloadFromAPI_def db_Update_def split: sum.splits if_splits)
  note pc = putCategories_names [OF assms(1) put]
  have wf': "wf_bucket (categoryBucket category d')"
    using pc by (simp add: wf_bucket_categoryBucket)
  have items: "items = collectItems (categoryBucket category d')"
    using assms(3) by (rule categoryItems_collect)
  have sorted: "sorted_wrt (<) (map Name items)"
    unfolding items using wf' by (intro sorted_collectItems wf_bucket_sorted)
  have before: "(case categoryItems category d of Inl err \<Rightarrow> {} | Inr old \<Rightarrow> set (map Name old))
      = {k. bolt_Bucket k (categoryBucket category d) \<noteq> None}"
  proof (cases "categoryItems category d")
    case (Inl err)
    then show ?thesis
      by (simp add: categoryItems_unknown bolt_Bucket_def)
  next
    case (Inr old)
    have "wf_bucket (categoryBucket category d)"
      using assms(1) by (rule wf_bucket_categoryBucket)
    then show ?thesis
      using Inr categoryItems_collect [OF Inr]
      by (simp add: set_collectItems_names wf_bucket_sorted del: set_map)
  qed
  have "set (map Name items) = {k. bolt_Bucket k (categoryBucket category d') \<noteq> None}"
    unfolding items using wf' by (intro set_collectItems_names wf_bucket_sorted)
  then show ?thesis
    using sorted pc before by simp
qed

text \<open>Insertion order is not kept: the feed lists \<open>zeta\<close>, \<open>alpha\<close>, \<open>mango\<close>, and
  \<^verbatim>\<open>categoryItems\<close> returns \<open>alpha\<close>, \<open>mango\<close>, \<open>zeta\<close>.\<close>

theorem insertion_order_counterexample:
  "map Name (Items (hd news_feed)) = [''zeta'', ''alpha'', ''mango'']
   \<and> downloadFromAPI True news_feed [] = (None, news_db)
   \<and> categoryItems ''news'' news_db =
       Inr [example_item ''alpha'', example_item ''mango'', example_item ''zeta'']
   \<and> map Name [example_item ''alpha'', example_item ''mango'', example_item ''zeta'']
       = [''alpha'', ''mango'', ''zeta'']"
  by (simp add: news_ingested news_items) (simp add: news_feed_def example_item_def)

text \<open>The theorem at the same ingestion.\<close>

theorem categoryItems_in_key_order_witness:
  "wf_bucket []
   \<and> downloadFromAPI True news_feed [] = (None, news_db)
   \<and> categoryItems ''news'' news_db =
       Inr [example_item ''alpha'', example_item ''mango'', example_item ''zeta'']
   \<and> sorted_wrt (<) [''alpha'', ''mango'', ''zeta'']
   \<and> set [''alpha'', ''mango'', ''zeta''] = set [''zeta'', ''alpha'', ''mango'']"
proof -
  have h1: "wf_bucket []"
    by (rule wf_bucket_Nil)
  note h2 = news_ingested
  note h3 = news_items
  have none: "categoryItems ''news'' [] = Inl NoDataDownloaded"
    by (simp add: categoryItems_def bolt_Bucket_def)
  have "sorted_wrt (<) [''alpha'', ''mango'', ''zeta'']
      \<and> set [''alpha'', ''mango'', ''zeta''] = set [''zeta'', ''alpha'', ''mango'']"
    using categoryItems_in_key_order [OF h1 h2 h3]
    by (simp add: none news_feed_def example_item_def)
  then show ?thesis
    using h1 h2 h3 by blast
qed

section \<open>Loading the persisted progress\<close>

text \<open>
  Claim C10. \<^verbatim>\<open>lastRuns\<close> is meant to skip the records whose value does not parse and to
  return all the others. It never returns an error, but its loop parses the first record's
  value for every key: when the first record is malformed, the well-formed record of
  \<open>b\<close> (value \<open>3\<close>) is omitted as well, and when the first record is well-formed, the
  malformed record of \<open>b\<close> is returned with the first record's index.
\<close>

theorem lastRuns_parses_first_value_only:
  "lastRuns malformed_first_db = (Map.empty, None) \<and> Atoi ''3'' = Some 3
   \<and> fst (lastRuns malformed_second_db) ''b'' = Some 7 \<and> Atoi ''x'' = None"
  by (simp add: lastRuns_def malformed_first_db_def malformed_second_db_def
      bolt_Bucket_def lastRunBktKey_def atoi_defs)

text \<open>
  Claim C4. After a restart every category with a progress record should resume at the
  index after its own record. With the records \<open>a \<mapsto> 0\<close> and \<open>b \<mapsto> 2\<close>, category \<open>b\<close>
  (four items, so \<open>2 < 4 - 1\<close>) is started again, but its first tick saves index 1 and
  shows item \<open>b1\<close> instead of item \<open>b3\<close>, in whichever order the loop of \<^verbatim>\<open>main\<close>
  visits the two categories: the loaded map gives \<open>b\<close> the index of \<open>a\<close>.
\<close>

theorem resume_uses_first_record:
  "map_of resume_db ''last_run'' = Some (Bkt [(''a'', Val ''0''), (''b'', Val ''2'')])
   \<and> Atoi ''2'' = Some 2
   \<and> categoryItems ''b'' resume_db =
       Inr [example_item ''b0'', example_item ''b1'', example_item ''b2'', example_item ''b3'']
   \<and> fst (lastRuns resume_db) ''b'' = Some 0
   \<and> map_option trace (Option.bind (resume all_ok [''a'', ''b''] resume_db) (tick all_ok ''b''))
       = Some [SaveLastRun ''b'' 1 None, ShowWindow ''b'' (example_item ''b1'') True]
   \<and> map_option trace (Option.bind (resume all_ok [''b'', ''a''] resume_db) (tick all_ok ''b''))
       = Some [SaveLastRun ''b'' 1 None, ShowWindow ''b'' (example_item ''b1'') True]"
  by (simp add: resume_def freshState_def lastRuns_def resume_db_def bolt_defs key_defs
      atoi_defs categoryItems_def example_defs startTimer_def int64_def tick_def
      showReminder_def lastIndexOf_def saveLastRun_def Itoa_def nat_digits.simps [of "Suc 0"] Let_def)

section \<open>A tick: saving and showing\<close>

text \<open>
  Claim C2, as amended. Whenever a call of \<^verbatim>\<open>showReminder\<close> shows an item, it has called
  \<^verbatim>\<open>saveLastRun\<close> with the new index first and opens the item's window after: the call
  either leaves the trace alone or appends exactly the save event followed by the window
  event. The window is opened whatever \<^verbatim>\<open>saveLastRun\<close> returned, and the save is made
  before anything is known about the rendering.
\<close>

theorem showReminder_saves_before_showing:
  assumes "showReminder e category s = Some (again, s')"
  shows "trace s' = trace s \<or>
    (\<exists>items. activeReminders s category = Some items \<and>
       trace s' = trace s @
         [SaveLastRun category (int64 (lastIndexOf s category + 1))
            (fst (saveLastRun (save_ok e) category (int64 (lastIndexOf s category + 1)) (db s))),
          ShowWindow category (items ! nat (int64 (lastIndexOf s category + 1))) (render_ok e)])"
  using assms
  by (auto simp: showReminder_def Let_def split: option.splits if_splits)

text \<open>The order the claim states (the window first, the save after) is not the code's:
  the first tick of category \<open>quotes\<close> saves index 0 and then shows item \<open>q0\<close>.\<close>

theorem display_before_save_counterexample:
  "map_option (\<lambda>r. trace (snd r)) (showReminder all_ok ''quotes'' quotes_state) =
     Some [SaveLastRun ''quotes'' 0 None, ShowWindow ''quotes'' (example_item ''q0'') True]"
  by (simp add: quotes_first_show quotes_shown_def)

text \<open>The theorem at the first tick of \<open>quotes\<close>, with a failing commit and a failing
  rendering.\<close>

theorem showReminder_saves_before_showing_witness:
  "showReminder all_failing ''quotes'' quotes_state \<noteq> None \<and>
   trace (snd (the (showReminder all_failing ''quotes'' quotes_state))) =
     [SaveLastRun ''quotes'' 0 (Some ErrCommit),
      ShowWindow ''quotes'' (example_item ''q0'') False]"
proof -
  obtain again s' where h: "showReminder all_failing ''quotes'' quotes_state = Some (again, s')"
    by (simp add: showReminder_def lastIndexOf_def quotes_state_def quotes_items_def int64_def
        Let_def)
  have "trace s' = trace quotes_state \<or>
    (\<exists>items. activeReminders quotes_state ''quotes'' = Some items \<and>
       trace s' = trace quotes_state @
         [SaveLastRun ''quotes'' (int64 (lastIndexOf quotes_state ''quotes'' + 1))
            (fst (saveLastRun (save_ok all_failing) ''quotes''
                    (int64 (lastIndexOf quotes_state ''quotes'' + 1)) (db quotes_state))),
          ShowWindow ''quotes'' (items ! nat (int64 (lastIndexOf quotes_state ''quotes'' + 1)))
            (render_ok all_failing)])"
    by (rule showReminder_saves_before_showing [OF h])
  moreover have "trace s' \<noteq> trace quotes_state"
    using h
    by (auto simp: showReminder_def lastIndexOf_def quotes_state_def quotes_items_def int64_def
        Let_def)
  ultimately have "trace s' =
     [SaveLastRun ''quotes'' 0 (Some ErrCommit), ShowWindow ''quotes'' (example_item ''q0'') False]"
    by (auto simp: lastIndexOf_def quotes_state_def quotes_items_def quotes_db_def int64_def
        saveLastRun_def bolt_defs key_defs Itoa_small all_failing_def)
  then show ?thesis
    using h by simp
qed

section \<open>A tick past the end\<close>

text \<open>
  Claim C3, as amended. When a tick finds \<open>nextIndex \<ge> len(items)\<close>, \<^verbatim>\<open>showReminder\<close>
  shows nothing, saves nothing and returns false; the goroutine returns and its deferred
  function runs \<^verbatim>\<open>killReminder\<close>, which is all that a cancellation does too: the tick
  equals the cancellation. The category leaves both global maps and the ticker set, and
  \<^verbatim>\<open>deleteLastRun\<close> is called on the ledger; when that transaction commits, no progress
  record of the category remains.
\<close>

theorem exhausted_tick_is_cancel:
  assumes "category \<in> tickers s"
    and "activeReminders s category = Some items"
    and "int64 (lastIndexOf s category + 1) \<ge> int (length items)"
  shows "showReminder e category s = Some (False, s)
    \<and> tick e category s = Some (cancel e category s)
    \<and> activeReminders (cancel e category s) category = None
    \<and> lastRunStatuses (cancel e category s) category = None
    \<and> category \<notin> tickers (cancel e category s)
    \<and> db (cancel e category s) = snd (deleteLastRun (delete_ok e) category (db s))
    \<and> trace (cancel e category s) =
        trace s @ [DeleteLastRun category (fst (deleteLastRun (delete_ok e) category (db s)))]
    \<and> (wf_db (db s) \<and> delete_ok e \<longrightarrow>
          fst (lastRuns (db (cancel e category s))) category = None)"
  using assms
  by (simp add: showReminder_exhausted tick_def cancel_def killReminder_def Let_def
      lastRuns_after_delete)

text \<open>The record is not preserved: after a restart on \<^const>\<open>overrun_db\<close> the first tick of
  category \<open>c\<close> finds index 3 beyond its two items, shows nothing, and the clean-up
  deletes the record \<open>c \<mapsto> 0\<close> from the ledger.\<close>

theorem exhausted_keeps_record_counterexample:
  "resume all_ok [''a'', ''c''] overrun_db = Some overrun_state
   \<and> lastRunBucket (db overrun_state) = [(''a'', Val ''2''), (''c'', Val ''0'')]
   \<and> showReminder all_ok ''c'' overrun_state = Some (False, overrun_state)
   \<and> map_option (\<lambda>s. (trace s, lastRunBucket (db s), lastRunStatuses s ''c'', ''c'' \<in> tickers s))
        (tick all_ok ''c'' overrun_state)
       = Some ([DeleteLastRun ''c'' None], [(''a'', Val ''2'')], None, False)"
  by (simp add: overrun_resumed)
    (simp add: overrun_state_def overrun_db_def lastRunBucket_def tick_def showReminder_def
      lastIndexOf_def int64_def killReminder_def deleteLastRun_def bolt_defs key_defs all_ok_def
      Let_def)

theorem exhausted_tick_is_cancel_witness:
  "''c'' \<in> tickers overrun_state
   \<and> activeReminders overrun_state ''c'' = Some [example_item ''c0'', example_item ''c1'']
   \<and> int64 (lastIndexOf overrun_state ''c'' + 1) \<ge> int (length [example_item ''c0'', example_item ''c1''])
   \<and> wf_db (db overrun_state) \<and> delete_ok all_ok
   \<and> tick all_ok ''c'' overrun_state = Some (cancel all_ok ''c'' overrun_state)
   \<and> trace (cancel all_ok ''c'' overrun_state) = [DeleteLastRun ''c'' None]
   \<and> fst (lastRuns (db (cancel all_ok ''c'' overrun_state))) ''c'' = None"
proof -
  have h1: "''c'' \<in> tickers overrun_state"
    by (simp add: overrun_state_def)
  have h2: "activeReminders overrun_state ''c'' = Some [example_item ''c0'', example_item ''c1'']"
    by (simp add: overrun_state_def)
  have h3: "int64 (lastIndexOf overrun_state ''c'' + 1)
      \<ge> int (length [example_item ''c0'', example_item ''c1''])"
    by (simp add: overrun_state_def lastIndexOf_def int64_def)
  have h4: "wf_db (db overrun_state)"
    by (simp add: overrun_state_def overrun_wf)
  have h5: "delete_ok all_ok"
    by (simp add: all_ok_def)
  have del: "fst (deleteLastRun (delete_ok all_ok) ''c'' (db overrun_state)) = None"
    using h4 h5 by (simp add: deleteLastRun_ok)
  have tr0: "trace overrun_state = []"
    by (simp add: overrun_state_def)
  note t = exhausted_tick_is_cancel [OF h1 h2 h3, of all_ok]
  have c1: "tick all_ok ''c'' overrun_state = Some (cancel all_ok ''c'' overrun_state)"
    using t by blast
  have c2: "trace (cancel all_ok ''c'' overrun_state) = [DeleteLastRun ''c'' None]"
    using t del tr0 by simp
  have c3: "fst (lastRuns (db (cancel all_ok ''c'' overrun_state))) ''c'' = None"
    using t h4 h5 by blast
  show ?thesis
    using h1 h2 h3 h4 h5 c1 c2 c3 by blast
qed

section \<open>Failures during a tick\<close>

text \<open>
  Claim C7. Neither a rendering failure nor a failure of \<^verbatim>\<open>saveLastRun\<close> stops a task: for
  every outcome the environment chooses, a tick with further items to come shows its item
  (the item counts as shown), advances the in-memory cursor by one and leaves the task in its
  ticker loop. When the commit of \<^verbatim>\<open>saveLastRun\<close> fails, the call reports an error and
  the database is unchanged, and the cursor has advanced all the same.
\<close>

theorem failures_do_not_stop_task:
  assumes "category \<in> tickers s"
    and "activeReminders s category = Some items"
    and "- 1 \<le> lastIndexOf s category"
    and "lastIndexOf s category + 2 < int (length items)"
    and "int (length items) < 2 ^ 63"
  shows "\<exists>s'. tick e category s = Some s'
    \<and> category \<in> tickers s'
    \<and> activeReminders s' category = Some items
    \<and> lastRunStatuses s' category = Some (lastIndexOf s category + 1)
    \<and> lastIndexOf s' category = lastIndexOf s category + 1
    \<and> shown category (trace s') =
        shown category (trace s) @ [items ! nat (lastIndexOf s category + 1)]
    \<and> (\<not> save_ok e \<longrightarrow>
         db s' = db s \<and>
         (\<exists>err. trace s' = trace s @
            [SaveLastRun category (lastIndexOf s category + 1) (Some err),
             ShowWindow category (items ! nat (lastIndexOf s category + 1)) (render_ok e)]))"
  using assms saveLastRun_failed_commit [of category "lastIndexOf s category + 1" "db s"]
  by (auto simp: tick_shows lastIndexOf_def shown_append)

text \<open>The theorem at the first tick of \<open>quotes\<close>, with a failing commit and a failing
  rendering.\<close>

theorem failures_do_not_stop_task_witness:
  "''quotes'' \<in> tickers quotes_state
   \<and> activeReminders quotes_state ''quotes'' = Some quotes_items
   \<and> - 1 \<le> lastIndexOf quotes_state ''quotes''
   \<and> lastIndexOf quotes_state ''quotes'' + 2 < int (length quotes_items)
   \<and> int (length quotes_items) < 2 ^ 63
   \<and> \<not> save_ok all_failing \<and> \<not> render_ok all_failing
   \<and> (\<exists>s'. tick all_failing ''quotes'' quotes_state = Some s'
        \<and> ''quotes'' \<in> tickers s'
        \<and> lastRunStatuses s' ''quotes'' = Some 0
        \<and> db s' = quotes_db
        \<and> shown ''quotes'' (trace s') = [example_item ''q0''])"
proof -
  have h1: "''quotes'' \<in> tickers quotes_state"
    and h2: "activeReminders quotes_state ''quotes'' = Some quotes_items"
    and h3: "- 1 \<le> lastIndexOf quotes_state ''quotes''"
    and h4: "lastIndexOf quotes_state ''quotes'' + 2 < int (length quotes_items)"
    and h5: "int (length quotes_items) < 2 ^ 63"
    by (simp_all add: quotes_state_facts)
  have env: "\<not> save_ok all_failing" "\<not> render_ok all_failing"
    by (simp_all add: all_failing_def)
  have q0: "quotes_items ! 0 = example_item ''q0''"
    by (simp add: quotes_items_def)
  have "\<exists>s'. tick all_failing ''quotes'' quotes_state = Some s'
        \<and> ''quotes'' \<in> tickers s'
        \<and> lastRunStatuses s' ''quotes'' = Some 0
        \<and> db s' = quotes_db
        \<and> shown ''quotes'' (trace s') = [example_item ''q0'']"
    using failures_do_not_stop_task [OF h1 h2 h3 h4 h5, of all_failing] env q0
    by (auto simp: quotes_state_facts)
  then show ?thesis
    using h1 h2 h3 h4 h5 env by blast
qed

section \<open>Sequences of ticks\<close>

text \<open>
  Claim C5. Let the cursor of a category start at \<open>i\<close>, with \<open>-1 \<le> i < len(items)\<close>. After
  any sequence of ticks, whatever the environment did, some number \<open>n\<close> of items has been
  shown, at most one per tick; they are the items \<open>i+1, \<dots>, i+n\<close> in this order, none
  skipped and none repeated, and the indices handed to \<^verbatim>\<open>saveLastRun\<close> are
  \<open>i+1, \<dots>, i+n\<close>; \<open>i + n < len(items)\<close>; and the record in \<^verbatim>\<open>lastRunStatuses\<close> is
  either \<open>i + n\<close> or has been deleted. As this holds after every sequence, it holds after
  every prefix: the cursor never decreases and grows by exactly one with each item shown.
\<close>

theorem ticks_advance_by_one:
  assumes "activeReminders s category = Some items"
    and "- 1 \<le> lastIndexOf s category"
    and "lastIndexOf s category < int (length items)"
    and "int (length items) < 2 ^ 63"
  shows "\<exists>s' n. ticks es category s = Some s'
    \<and> n \<le> length es
    \<and> lastIndexOf s category + int n < int (length items)
    \<and> (lastRunStatuses s' category = None
         \<or> lastRunStatuses s' category = Some (lastIndexOf s category + int n))
    \<and> shown category (trace s') =
        shown category (trace s) @ take n (drop (nat (lastIndexOf s category + 1)) items)
    \<and> saved category (trace s') =
        saved category (trace s) @ map (\<lambda>k. lastIndexOf s category + 1 + int k) [0..<n]"
  using assms
proof (induction es arbitrary: s)
  case Nil
  have "lastRunStatuses s category = None \<or>
      lastRunStatuses s category = Some (lastIndexOf s category)"
    by (auto simp: lastIndexOf_def split: option.splits)
  then show ?case
    using Nil by (intro exI [of _ s] exI [of _ 0]) auto
next
  case (Cons e es)
  let ?i = "lastIndexOf s category"
  consider (idle) "category \<notin> tickers s"
    | (past) "category \<in> tickers s" "?i + 1 = int (length items)"
    | (last) "category \<in> tickers s" "?i + 2 = int (length items)"
    | (more) "category \<in> tickers s" "?i + 2 < int (length items)"
    using Cons.prems by linarith
  then show ?case
  proof cases
    case idle
    then have "ticks (e # es) category s = Some s"
      by (rule ticks_idle)
    moreover have "lastRunStatuses s category = None \<or>
        lastRunStatuses s category = Some ?i"
      by (auto simp: lastIndexOf_def split: option.splits)
    ultimately show ?thesis
      using Cons.prems by (intro exI [of _ s] exI [of _ 0]) auto
  next
    case past
    then obtain s1 where s1: "tick e category s = Some s1" "category \<notin> tickers s1"
      "lastRunStatuses s1 category = None"
      "shown category (trace s1) = shown category (trace s)"
      "saved category (trace s1) = saved category (trace s)"
      using tick_past_end [of category s items e] Cons.prems by blast
    have "ticks (e # es) category s = Some s1"
      using s1 by (simp add: ticks_idle)
    then show ?thesis
      using s1 Cons.prems by (intro exI [of _ s1] exI [of _ 0]) auto
  next
    case last
    then obtain s1 where s1: "tick e category s = Some s1" "category \<notin> tickers s1"
      "lastRunStatuses s1 category = None"
      "shown category (trace s1) = shown category (trace s) @ [items ! nat (?i + 1)]"
      "saved category (trace s1) = saved category (trace s) @ [?i + 1]"
      using tick_last_item [of category s items e] Cons.prems by blast
    have run: "ticks (e # es) category s = Some s1"
      using s1 by (simp add: ticks_idle)
    have "nat (?i + 1) < length items"
      using last Cons.prems by auto
    then have "take 1 (drop (nat (?i + 1)) items) = [items ! nat (?i + 1)]"
      by (simp add: Cons_nth_drop_Suc [symmetric])
    then show ?thesis
      using s1 run last Cons.prems by (intro exI [of _ s1] exI [of _ 1]) auto
  next
    case more
    let ?s1 = "s\<lparr>lastRunStatuses := (lastRunStatuses s)(category \<mapsto> ?i + 1),
         db := snd (saveLastRun (save_ok e) category (?i + 1) (db s)),
         trace := trace s @
           [SaveLastRun category (?i + 1)
              (fst (saveLastRun (save_ok e) category (?i + 1) (db s))),
            ShowWindow category (items ! nat (?i + 1)) (render_ok e)]\<rparr>"
    have step: "tick e category s = Some ?s1"
      using more Cons.prems by (simp add: tick_shows)
    have i1: "lastIndexOf ?s1 category = ?i + 1"
      by (simp add: lastIndexOf_def)
    have "\<exists>s' n. ticks es category ?s1 = Some s'
      \<and> n \<le> length es
      \<and> lastIndexOf ?s1 category + int n < int (length items)
      \<and> (lastRunStatuses s' category = None
           \<or> lastRunStatuses s' category = Some (lastIndexOf ?s1 category + int n))
      \<and> shown category (trace s') =
          shown category (trace ?s1) @ take n (drop (nat (lastIndexOf ?s1 category + 1)) items)
      \<and> saved category (trace s') =
          saved category (trace ?s1) @ map (\<lambda>k. lastIndexOf ?s1 category + 1 + int k) [0..<n]"
      using more Cons.prems by (intro Cons.IH) (simp_all add: i1)
    then obtain s' n where rest: "ticks es category ?s1 = Some s'" "n \<le> length es"
      "?i + 1 + int n < int (length items)"
      "lastRunStatuses s' category = None
         \<or> lastRunStatuses s' category = Some (?i + 1 + int n)"
      "shown category (trace s') =
          shown category (trace ?s1) @ take n (drop (nat (?i + 2)) items)"
      "saved category (trace s') =
          saved category (trace ?s1) @ map (\<lambda>k. ?i + 2 + int k) [0..<n]"
      unfolding i1 by (auto simp: add.commute add.left_commute)
    have idx: "nat (?i + 1) < length items" "nat (?i + 2) = Suc (nat (?i + 1))"
      using more Cons.prems by auto
    have tk: "take (Suc n) (drop (nat (?i + 1)) items) =
        items ! nat (?i + 1) # take n (drop (nat (?i + 2)) items)"
      using idx by (simp add: Cons_nth_drop_Suc [symmetric])
    have mp: "map (\<lambda>k. ?i + 1 + int k) [0..<Suc n] = (?i + 1) # map (\<lambda>k. ?i + 2 + int k) [0..<n]"
      by (simp add: upt_rec [of 0 "Suc n"] map_Suc_upt [symmetric] del: upt_Suc) 
    have run: "ticks (e # es) category s = Some s'"
      using step rest(1) by simp
    show ?thesis
      using run rest tk mp
      by (intro exI [of _ s'] exI [of _ "Suc n"]) (auto simp: shown_append saved_append)
  qed
qed

text \<open>The theorem at two ticks of \<open>quotes\<close>.\<close>

theorem ticks_advance_by_one_witness:
  "activeReminders quotes_state ''quotes'' = Some quotes_items
   \<and> - 1 \<le> lastIndexOf quotes_state ''quotes''
   \<and> lastIndexOf quotes_state ''quotes'' < int (length quotes_items)
   \<and> int (length quotes_items) < 2 ^ 63
   \<and> (\<exists>s' n. ticks [all_ok, all_failing] ''quotes'' quotes_state = Some s'
        \<and> n \<le> 2
        \<and> int n < 4
        \<and> (lastRunStatuses s' ''quotes'' = None
             \<or> lastRunStatuses s' ''quotes'' = Some (int n - 1))
        \<and> shown ''quotes'' (trace s') = take n quotes_items
        \<and> saved ''quotes'' (trace s') = map int [0..<n])"
proof -
  have h1: "activeReminders quotes_state ''quotes'' = Some quotes_items"
    and h2: "- 1 \<le> lastIndexOf quotes_state ''quotes''"
    and h3: "lastIndexOf quotes_state ''quotes'' < int (length quotes_items)"
    and h4: "int (length quotes_items) < 2 ^ 63"
    by (simp_all add: quotes_state_facts)
  have "\<exists>s' n. ticks [all_ok, all_failing] ''quotes'' quotes_state = Some s'
        \<and> n \<le> 2
        \<and> int n < 4
        \<and> (lastRunStatuses s' ''quotes'' = None
             \<or> lastRunStatuses s' ''quotes'' = Some (int n - 1))
        \<and> shown ''quotes'' (trace s') = take n quotes_items
        \<and> saved ''quotes'' (trace s') = map int [0..<n]"
    using ticks_advance_by_one [OF h1 h2 h3 h4, of "[all_ok, all_failing]"]
    by (simp add: quotes_state_facts numeral_2_eq_2 del: ticks.simps)
  then show ?thesis
    using h1 h2 h3 h4 by blast
qed

section \<open>Cancelling and starting again\<close>

text \<open>
  Claim C6. Cancelling a running task, with the delete transaction committing: the loaded
  progress (\<^verbatim>\<open>lastRuns\<close>) has no entry for the category and the ledger no record; the
  category has left the active set. A following Start shows item 0 first and saves index 0,
  at once when started without delay, at the first tick otherwise. \<^verbatim>\<open>deleteLastRun\<close> is
  one transaction: deleting the record that is now absent succeeds and changes nothing, and
  a delete whose commit fails leaves the database as it was.
\<close>

theorem cancel_resets_progress:
  assumes "category \<in> tickers s"
    and "wf_db (db s)"
    and "delete_ok e"
    and "categoryItems category (db s) = Inr items"
    and "items \<noteq> []"
    and "int (length items) < 2 ^ 63"
  shows "fst (lastRuns (db (cancel e category s))) category = None
    \<and> map_of (lastRunBucket (db (cancel e category s))) category = None
    \<and> activeReminders (cancel e category s) category = None
    \<and> lastRunStatuses (cancel e category s) category = None
    \<and> category \<notin> tickers (cancel e category s)
    \<and> trace (cancel e category s) = trace s @ [DeleteLastRun category None]
    \<and> (\<forall>e1. \<exists>s1. startButton e1 True (Some category) (cancel e category s) = Some (None, s1)
          \<and> shown category (trace s1) = shown category (trace s) @ [items ! 0]
          \<and> saved category (trace s1) = saved category (trace s) @ [0]
          \<and> lastRunStatuses s1 category = Some 0)
    \<and> (\<forall>e1 e2. \<exists>s1 s2.
          startButton e1 False (Some category) (cancel e category s) = Some (None, s1)
          \<and> trace s1 = trace (cancel e category s)
          \<and> tick e2 category s1 = Some s2
          \<and> shown category (trace s2) = shown category (trace s) @ [items ! 0]
          \<and> saved category (trace s2) = saved category (trace s) @ [0])
    \<and> deleteLastRun True category (db (cancel e category s))
        = (None, db (cancel e category s))
    \<and> deleteLastRun False category (db s) = (Some ErrCommit, db s)"
proof -
  let ?c = "cancel e category s"
  note c = cancel_running [OF assms(1), of e]
  have dbc: "db ?c = snd (deleteLastRun True category (db s))"
    using assms(3) by (simp add: c)
  have ok: "fst (deleteLastRun True category (db s)) = None"
    using assms(2) by (simp add: deleteLastRun_ok)
  have p1: "fst (lastRuns (db ?c)) category = None"
    using assms(2) by (simp add: dbc lastRuns_after_delete)
  have p2: "map_of (lastRunBucket (db ?c)) category = None"
    using assms(2)
    by (simp add: dbc deleteLastRun_ok lastRunBucket_put map_of_bkt_del
        wf_bucket_lastRunBucket wf_bucket_sorted)
  have p3: "activeReminders ?c category = None" "lastRunStatuses ?c category = None"
    "category \<notin> tickers ?c"
    by (simp_all add: c)
  have p4: "trace ?c = trace s @ [DeleteLastRun category None]"
    using assms(3) ok by (simp add: c)
  have items: "categoryItems category (db ?c) = Inr items"
    using assms(2,4) by (simp add: dbc categoryItems_after_delete)
  have sh: "shown category (trace ?c) = shown category (trace s)"
    "saved category (trace ?c) = saved category (trace s)"
    by (simp_all add: p4 shown_append saved_append)
  note st = start_from_scratch [OF p3(1) p3(2) p3(3) items assms(5) assms(6)]
  have p5: "\<exists>s1. startButton e1 True (Some category) ?c = Some (None, s1)
          \<and> shown category (trace s1) = shown category (trace s) @ [items ! 0]
          \<and> saved category (trace s1) = saved category (trace s) @ [0]
          \<and> lastRunStatuses s1 category = Some 0" for e1
    using st(1) [of e1] by (simp only: sh)
  have p6: "\<exists>s1 s2. startButton e1 False (Some category) ?c = Some (None, s1)
          \<and> trace s1 = trace ?c
          \<and> tick e2 category s1 = Some s2
          \<and> shown category (trace s2) = shown category (trace s) @ [items ! 0]
          \<and> saved category (trace s2) = saved category (trace s) @ [0]" for e1 e2
    using st(2) [of e1 e2] unfolding sh by blast
  have p7: "deleteLastRun True category (db ?c) = (None, db ?c)"
    using assms(2) by (simp add: dbc deleteLastRun_again)
  have p8: "deleteLastRun False category (db s) = (Some ErrCommit, db s)"
  proof -
    have "deleteLastRun True category (db s) =
        (None, bkt_put lastRunBktKey (Bkt (bkt_del category (lastRunBucket (db s)))) (db s))"
      using assms(2) by (rule deleteLastRun_ok)
    then show ?thesis
      by (auto simp: deleteLastRun_def db_Update_def split: sum.splits if_splits)
  qed
  show ?thesis
    using p1 p2 p3 p4 p5 p6 p7 p8 by blast
qed

text \<open>The theorem at \<^const>\<open>quotes_shown\<close>: the record \<open>quotes \<mapsto> 0\<close> is gone after the
  cancellation and the next Start shows \<open>q0\<close> again.\<close>

theorem cancel_resets_progress_witness:
  "''quotes'' \<in> tickers quotes_shown
   \<and> wf_db (db quotes_shown)
   \<and> delete_ok all_ok
   \<and> categoryItems ''quotes'' (db quotes_shown) = Inr quotes_items
   \<and> quotes_items \<noteq> []
   \<and> int (length quotes_items) < 2 ^ 63
   \<and> fst (lastRuns (db quotes_shown)) ''quotes'' = Some 0
   \<and> fst (lastRuns (db (cancel all_ok ''quotes'' quotes_shown))) ''quotes'' = None
   \<and> (\<exists>s1. startButton all_ok True (Some ''quotes'') (cancel all_ok ''quotes'' quotes_shown)
              = Some (None, s1)
        \<and> shown ''quotes'' (trace s1) = [example_item ''q0'', example_item ''q0'']
        \<and> lastRunStatuses s1 ''quotes'' = Some 0)
   \<and> deleteLastRun True ''quotes'' (db (cancel all_ok ''quotes'' quotes_shown))
       = (None, db (cancel all_ok ''quotes'' quotes_shown))"
proof -
  have h1: "''quotes'' \<in> tickers quotes_shown"
    and h2: "wf_db (db quotes_shown)"
    and h3: "delete_ok all_ok"
    and h4: "categoryItems ''quotes'' (db quotes_shown) = Inr quotes_items"
    and h5: "quotes_items \<noteq> []"
    and h6: "int (length quotes_items) < 2 ^ 63"
    by (simp_all add: quotes_shown_facts all_ok_def quotes_items_def)
  note t = cancel_resets_progress [OF h1 h2 h3 h4 h5 h6]
  have before: "fst (lastRuns (db quotes_shown)) ''quotes'' = Some 0"
    by (simp add: quotes_shown_facts)
  have c1: "fst (lastRuns (db (cancel all_ok ''quotes'' quotes_shown))) ''quotes'' = None"
    using t by blast
  have "\<exists>s1. startButton all_ok True (Some ''quotes'') (cancel all_ok ''quotes'' quotes_shown)
              = Some (None, s1)
        \<and> shown ''quotes'' (trace s1) = shown ''quotes'' (trace quotes_shown) @ [quotes_items ! 0]
        \<and> saved ''quotes'' (trace s1) = saved ''quotes'' (trace quotes_shown) @ [0]
        \<and> lastRunStatuses s1 ''quotes'' = Some 0"
    using t by blast
  then have c2: "\<exists>s1. startButton all_ok True (Some ''quotes'') (cancel all_ok ''quotes'' quotes_shown)
              = Some (None, s1)
        \<and> shown ''quotes'' (trace s1) = [example_item ''q0'', example_item ''q0'']
        \<and> lastRunStatuses s1 ''quotes'' = Some 0"
    by (auto simp: quotes_shown_facts)
  have c3: "deleteLastRun True ''quotes'' (db (cancel all_ok ''quotes'' quotes_shown))
       = (None, db (cancel all_ok ''quotes'' quotes_shown))"
    using t by blast
  show ?thesis
    using h1 h2 h3 h4 h5 h6 before c1 c2 c3 by blast
qed

section \<open>Starting a category\<close>

text \<open>
  Claim C8. Start on a category that is already running changes nothing
  (\<open>startButton_running\<close>). Start on a category without items shows nothing, saves nothing
  and starts no ticker, but it is not a no-op: the handler has entered the category into
  \<^verbatim>\<open>activeReminders\<close> before \<^verbatim>\<open>startTimer\<close> returns early, and no clean-up removes it, so
  the next Start of the category is refused as already running.
\<close>

theorem start_on_empty_category_registers_it:
  "categoryItems ''empty'' empty_db = Inr []
   \<and> startButton all_ok False (Some ''empty'') (freshState empty_db)
       = Some (None, (freshState empty_db)\<lparr>activeReminders := [''empty'' \<mapsto> []]\<rparr>)
   \<and> startButton all_ok True (Some ''empty'') (freshState empty_db)
       = Some (None, (freshState empty_db)\<lparr>activeReminders := [''empty'' \<mapsto> []]\<rparr>)
   \<and> startButton all_ok False (Some ''empty'')
         ((freshState empty_db)\<lparr>activeReminders := [''empty'' \<mapsto> []]\<rparr>)
       = Some (Some (AlreadyRunning ''empty''),
           (freshState empty_db)\<lparr>activeReminders := [''empty'' \<mapsto> []]\<rparr>)"
  by (simp add: categoryItems_def empty_db_def bolt_Bucket_def key_defs startButton_def
      startTimer_def freshState_def)

text \<open>
  Claim C9. Start with an immediate display, when the item shown is the category's last:
  the goroutine returns before it registers its clean-up. No ticker runs; the category stays
  in \<^verbatim>\<open>activeReminders\<close>, its cursor stays in \<^verbatim>\<open>lastRunStatuses\<close>, and the database is
  the one \<^verbatim>\<open>saveLastRun\<close> left (with the record of the last index when that transaction
  committed); no \<^verbatim>\<open>deleteLastRun\<close> follows. Every later Start of the category is refused
  as already running, and neither a cancellation nor a tick changes the state any more.
\<close>

theorem immediate_last_item_leaves_task_registered:
  assumes "activeReminders s category = None"
    and "category \<notin> tickers s"
    and "categoryItems category (db s) = Inr items"
    and "- 1 \<le> lastIndexOf s category"
    and "lastIndexOf s category + 2 = int (length items)"
    and "int (length items) < 2 ^ 63"
  shows "\<exists>s'. startButton e True (Some category) s = Some (None, s')
    \<and> category \<notin> tickers s'
    \<and> activeReminders s' category = Some items
    \<and> lastRunStatuses s' category = Some (int (length items) - 1)
    \<and> db s' = snd (saveLastRun (save_ok e) category (int (length items) - 1) (db s))
    \<and> trace s' = trace s @
         [SaveLastRun category (int (length items) - 1)
            (fst (saveLastRun (save_ok e) category (int (length items) - 1) (db s))),
          ShowWindow category (last items) (render_ok e)]
    \<and> (wf_db (db s) \<and> save_ok e \<and> category \<noteq> [] \<and> length category \<le> 32768 \<longrightarrow>
          map_of (lastRunBucket (db s')) category = Some (Val (Itoa (int (length items) - 1))))
    \<and> (\<forall>e' noDelay. startButton e' noDelay (Some category) s'
          = Some (Some (AlreadyRunning category), s'))
    \<and> (\<forall>e'. cancel e' category s' = s')
    \<and> (\<forall>es. ticks es category s' = Some s')"
proof -
  let ?s0 = "s\<lparr>activeReminders := (activeReminders s)(category \<mapsto> items)\<rparr>"
  let ?n = "int (length items) - 1"
  let ?s1 = "?s0\<lparr>lastRunStatuses := (lastRunStatuses ?s0)(category \<mapsto> ?n),
         db := snd (saveLastRun (save_ok e) category ?n (db ?s0)),
         trace := trace ?s0 @
           [SaveLastRun category ?n (fst (saveLastRun (save_ok e) category ?n (db ?s0))),
            ShowWindow category (items ! nat ?n) (render_ok e)]\<rparr>"
  have n: "lastIndexOf s category + 1 = ?n"
    using assms by simp
  have ne: "items \<noteq> []"
    using assms by auto
  have show1: "showReminder e category ?s0 = Some (False, ?s1)"
    using assms showReminder_shows [of ?s0 category items e] by (simp add: n)
  have rem: "int64 (int64 (int (length items) - lastIndexOf s category) - 1) = 1"
    using assms by (simp add: int64_def)
  have timer: "startTimer e True category ?s0 = Some ?s1"
    using ne show1 rem by (simp add: startTimer_def Let_def)
  have start: "startButton e True (Some category) s = Some (None, ?s1)"
    using assms(1,3) timer by (simp add: startButton_def)
  have "nat ?n = length items - 1"
    by simp
  then have lst: "items ! nat ?n = last items"
    using last_conv_nth [OF ne] by simp
  have persisted: "map_of (lastRunBucket (db ?s1)) category = Some (Val (Itoa ?n))"
    if "wf_db (db s)" "save_ok e" "category \<noteq> []" "length category \<le> 32768"
    using that assms by (simp add: saveLastRun_ok lastRunBucket_put map_of_bkt_put)
  show ?thesis
    using start assms(2) lst persisted
    by (intro exI [of _ ?s1]) (simp add: startButton_running cancel_idle ticks_idle)
qed

text \<open>The theorem at a fresh process and the single-item category \<open>solo\<close>.\<close>

theorem immediate_last_item_leaves_task_registered_witness:
  "activeReminders (freshState solo_db) ''solo'' = None
   \<and> ''solo'' \<notin> tickers (freshState solo_db)
   \<and> categoryItems ''solo'' (db (freshState solo_db)) = Inr [example_item ''s0'']
   \<and> - 1 \<le> lastIndexOf (freshState solo_db) ''solo''
   \<and> lastIndexOf (freshState solo_db) ''solo'' + 2 = int (length [example_item ''s0''])
   \<and> int (length [example_item ''s0'']) < 2 ^ 63
   \<and> wf_db (db (freshState solo_db)) \<and> save_ok all_ok
   \<and> (\<exists>s'. startButton all_ok True (Some ''solo'') (freshState solo_db) = Some (None, s')
        \<and> ''solo'' \<notin> tickers s'
        \<and> activeReminders s' ''solo'' = Some [example_item ''s0'']
        \<and> lastRunStatuses s' ''solo'' = Some 0
        \<and> shown ''solo'' (trace s') = [example_item ''s0'']
        \<and> map_of (lastRunBucket (db s')) ''solo'' = Some (Val ''0'')
        \<and> startButton all_ok False (Some ''solo'') s' = Some (Some (AlreadyRunning ''solo''), s')
        \<and> cancel all_ok ''solo'' s' = s')"
proof -
  have h1: "activeReminders (freshState solo_db) ''solo'' = None"
    and h2: "''solo'' \<notin> tickers (freshState solo_db)"
    and h3: "categoryItems ''solo'' (db (freshState solo_db)) = Inr [example_item ''s0'']"
    and h4: "- 1 \<le> lastIndexOf (freshState solo_db) ''solo''"
    and h5: "lastIndexOf (freshState solo_db) ''solo'' + 2 = int (length [example_item ''s0''])"
    and h6: "int (length [example_item ''s0'']) < 2 ^ 63"
    and h7: "wf_db (db (freshState solo_db))"
    and h8: "save_ok all_ok"
    by (simp_all add: solo_facts all_ok_def)
  have key: "''solo'' \<noteq> []" "length ''solo'' \<le> 32768"
    by simp_all
  obtain s' where s': "startButton all_ok True (Some ''solo'') (freshState solo_db) = Some (None, s')"
    "''solo'' \<notin> tickers s'"
    "activeReminders s' ''solo'' = Some [example_item ''s0'']"
    "lastRunStatuses s' ''solo'' = Some (int (length [example_item ''s0'']) - 1)"
    "trace s' = trace (freshState solo_db) @
         [SaveLastRun ''solo'' (int (length [example_item ''s0'']) - 1)
            (fst (saveLastRun (save_ok all_ok) ''solo'' (int (length [example_item ''s0'']) - 1)
                   (db (freshState solo_db)))),
          ShowWindow ''solo'' (last [example_item ''s0'']) (render_ok all_ok)]"
    "wf_db (db (freshState solo_db)) \<and> save_ok all_ok \<and> ''solo'' \<noteq> [] \<and> length ''solo'' \<le> 32768 \<longrightarrow>
          map_of (lastRunBucket (db s')) ''solo''
            = Some (Val (Itoa (int (length [example_item ''s0'']) - 1)))"
    "\<forall>e' noDelay. startButton e' noDelay (Some ''solo'') s'
          = Some (Some (AlreadyRunning ''solo''), s')"
    "\<forall>e'. cancel e' ''solo'' s' = s'"
    using immediate_last_item_leaves_task_registered [OF h1 h2 h3 h4 h5 h6, of all_ok]
    by blast
  have "map_of (lastRunBucket (db s')) ''solo'' = Some (Val ''0'')"
    using s'(6) h7 h8 key by (simp add: Itoa_small)
  moreover have "shown ''solo'' (trace s') = [example_item ''s0'']"
    by (simp add: s'(5) solo_facts)
  moreover have "lastRunStatuses s' ''solo'' = Some 0"
    using s'(4) by simp
  ultimately have "\<exists>s'. startButton all_ok True (Some ''solo'') (freshState solo_db) = Some (None, s')
        \<and> ''solo'' \<notin> tickers s'
        \<and> activeReminders s' ''solo'' = Some [example_item ''s0'']
        \<and> lastRunStatuses s' ''solo'' = Some 0
        \<and> shown ''solo'' (trace s') = [example_item ''s0'']
        \<and> map_of (lastRunBucket (db s')) ''solo'' = Some (Val ''0'')
        \<and> startButton all_ok False (Some ''solo'') s' = Some (Some (AlreadyRunning ''solo''), s')
        \<and> cancel all_ok ''solo'' s' = s'"
    using s'(1,2,3,7,8) by blast
  then show ?thesis
    using h1 h2 h3 h4 h5 h6 h7 h8 by blast
qed

end
